theory Spec2Isabelle
  imports Complex_Main "HOL-Library.Option_ord"
begin

section \<open>Monte Carlo tree search: the engine of mcts.py\<close>

text \<open>
  A shallow embedding of the class \<open>MCTS\<close> and of the abstract class \<open>Node\<close> of
  \<^verbatim>\<open>src/mcts.py\<close>.

  \<^item> A Python \<open>float\<close> is the real number it denotes, and an arithmetic operation on
    floats returns its exact result rounded to the nearest float (\<open>fl\<close> below). Visit
    counts are Python's unbounded integers (\<open>int\<close>).
  \<^item> A Python \<open>set\<close> of nodes is the list of its elements in the order in which the
    interpreter iterates over it; the order is arbitrary, since the list is whatever
    \<open>find_children\<close> returns.
  \<^item> The two \<open>defaultdict(int)\<close> tables are partial maps; reading a missing key
    returns 0 and stores the key with 0, as \<open>defaultdict.__getitem__\<close> does.
  \<^item> An exception is a value \<open>Inl e\<close>; the engine is returned beside it, since a
    raised exception does not undo the writes made before it.
  \<^item> A \<open>while True\<close> loop that may run forever returns \<open>None\<close> when it does.
\<close>

subsection \<open>Floating-point numbers\<close>

text \<open>
  The arithmetic of \<open>Q[n] / N[n]\<close>, \<open>1 - reward\<close> and \<open>Q[node] += reward\<close> is that of
  Python's \<open>float\<close>, IEEE 754 binary64: a significand of 53 bits, rounding to nearest,
  ties to the even significand. A float is modelled by the real number it denotes, and
  an operation by the exact operation followed by the rounding \<open>fl\<close>.

  \<^item> \<open>round_even\<close> rounds a real to the nearest integer, a tie to the even one.
  \<^item> \<open>ulp_exponent x\<close> is the exponent of the unit in the last place of the floats
    around \<open>x\<close>: 52 below the exponent of \<open>x\<close>, and \<open>- 1074\<close> for every \<open>x\<close> below
    \<open>2 powr - 1022\<close> in magnitude (gradual underflow).
  \<^item> \<open>fl x\<close> is the float nearest to \<open>x\<close>.

  An \<open>int\<close> operand (the 0 that \<open>defaultdict(int)\<close> supplies, a visit count, a reward
  returned as 0 or 1) stands for the float of the same value, which is exact below
  \<open>2 ^ 53\<close>. The model has no infinities and no NaN: a result of magnitude \<open>2 ^ 1024\<close> or
  more, which binary64 replaces by an infinity, is outside it. No such result arises from
  rewards between 0 and 1, the range that the specification gives to a reward, and an
  exploration weight of ordinary size. \<open>math.log\<close> and \<open>math.sqrt\<close> are taken to return
  the rounded exact value; what is proved of \<open>uct_select\<close> is that it raises nothing and
  returns a recorded child, which does not depend on the digits of either.
\<close>

definition round_even :: "real \<Rightarrow> int" where
  "round_even x =
     (let f = \<lfloor>x\<rfloor>; d = x - of_int f in
      if d < 1 / 2 then f else if 1 / 2 < d then f + 1 else if even f then f else f + 1)"

definition ulp_exponent :: "real \<Rightarrow> int" where
  "ulp_exponent x = max \<lfloor>log 2 \<bar>x\<bar>\<rfloor> (- 1022) - 52"

definition fl :: "real \<Rightarrow> real" where
  "fl x = (if x = 0 then 0
           else of_int (round_even (x / 2 powr of_int (ulp_exponent x)))
                  * 2 powr of_int (ulp_exponent x))"

subsection \<open>The node interface\<close>

text \<open>
  The abstract methods of \<open>Node\<close> (lines 90-119), for nodes of type \<open>'n\<close>.
  \<open>find_random_child\<close> draws from a source of randomness of type \<open>'r\<close> and returns
  the source it leaves behind. \<open>pop_index\<close> is not a method of \<open>Node\<close>: it is the
  interpreter's choice of the element that \<open>set.pop()\<close> removes from a non-empty set,
  given as an index that is reduced modulo the size of the set.
\<close>

record ('n, 'r) node_class =
  find_children :: "'n \<Rightarrow> 'n list"
  find_random_child :: "'n \<Rightarrow> 'r \<Rightarrow> 'n \<times> 'r"
  is_terminal :: "'n \<Rightarrow> bool"
  reward :: "'n \<Rightarrow> real"
  pop_index :: "'n list \<Rightarrow> nat"

datatype error = RuntimeError | AssertionError | ValueError | ZeroDivisionError
  | KeyError | IndexError

subsection \<open>The engine\<close>

text \<open>The fields set by \<open>__init__\<close> (lines 8-12).\<close>

record 'n MCTS =
  Q :: "'n \<rightharpoonup> real"
  N :: "'n \<rightharpoonup> int"
  children :: "'n \<rightharpoonup> 'n list"
  exploration_weight :: real

definition MCTS_init :: "real \<Rightarrow> 'n MCTS" where
  "MCTS_init ew = \<lparr>Q = Map.empty, N = Map.empty, children = Map.empty,
     exploration_weight = ew\<rparr>"

text \<open>\<open>d[k]\<close> on a \<open>defaultdict(int)\<close>: the value read and the table after the read.\<close>

definition dd_get :: "('k \<rightharpoonup> 'v::zero) \<Rightarrow> 'k \<Rightarrow> 'v \<times> ('k \<rightharpoonup> 'v)" where
  "dd_get m k = (case m k of None \<Rightarrow> (0, m(k \<mapsto> 0)) | Some v \<Rightarrow> (v, m))"

text \<open>The value a read of \<open>d[k]\<close> would return, without the write.\<close>

definition dd_val :: "('k \<rightharpoonup> 'v::zero) \<Rightarrow> 'k \<Rightarrow> 'v" where
  "dd_val m k = (case m k of None \<Rightarrow> 0 | Some v \<Rightarrow> v)"

subsection \<open>The builtin max with a key function\<close>

text \<open>
  \<open>max(xs, key=f)\<close>: \<open>ValueError\<close> on an empty iterable; otherwise \<open>f\<close> is called once
  on each element in iteration order and an element replaces the running maximum only
  when its key is strictly greater. The key function reads the engine, so the engine
  is threaded through the calls.
\<close>

fun max_loop :: "('s \<Rightarrow> 'a \<Rightarrow> (error + 'k::linorder) \<times> 's) \<Rightarrow> 's \<Rightarrow> 'a \<Rightarrow> 'k \<Rightarrow> 'a list
    \<Rightarrow> (error + 'a) \<times> 's" where
  "max_loop key s best bestk [] = (Inr best, s)"
| "max_loop key s best bestk (x # xs) =
     (case key s x of
        (Inl e, s') \<Rightarrow> (Inl e, s')
      | (Inr k, s') \<Rightarrow>
          if k > bestk then max_loop key s' x k xs else max_loop key s' best bestk xs)"

definition py_max :: "('s \<Rightarrow> 'a \<Rightarrow> (error + 'k::linorder) \<times> 's) \<Rightarrow> 's \<Rightarrow> 'a list
    \<Rightarrow> (error + 'a) \<times> 's" where
  "py_max key s xs =
     (case xs of
        [] \<Rightarrow> (Inl ValueError, s)
      | x # rest \<Rightarrow>
          (case key s x of
             (Inl e, s') \<Rightarrow> (Inl e, s')
           | (Inr k, s') \<Rightarrow> max_loop key s' x k rest))"

subsection \<open>choose (lines 15-27)\<close>

text \<open>
  The method \<open>choose\<close> is named \<open>choose_node\<close>, since \<open>choose\<close> is the binomial
  coefficient of the library.

  The local function \<open>score\<close>. \<open>float("-inf")\<close> is \<open>None\<close>, which the order on
  \<open>real option\<close> puts below every \<open>Some x\<close>. The quotient \<open>Q[n] / N[n]\<close> is a float
  division.
\<close>

definition score :: "'n MCTS \<Rightarrow> 'n \<Rightarrow> (error + real option) \<times> 'n MCTS" where
  "score s n =
     (let (c, N1) = dd_get (N s) n; s1 = s\<lparr>N := N1\<rparr> in
      if c = 0 then (Inr None, s1)
      else
        (let (q, Q1) = dd_get (Q s1) n; s2 = s1\<lparr>Q := Q1\<rparr>;
             (c', N2) = dd_get (N s2) n; s3 = s2\<lparr>N := N2\<rparr>
         in (Inr (Some (fl (q / real_of_int c'))), s3)))"

definition choose_node :: "('n, 'r) node_class \<Rightarrow> 'n MCTS \<Rightarrow> 'r \<Rightarrow> 'n
    \<Rightarrow> (error + 'n) \<times> 'n MCTS \<times> 'r" where
  "choose_node w s rng node =
     (if is_terminal w node then (Inl RuntimeError, s, rng)
      else
        (case children s node of
           None \<Rightarrow> (let (c, rng') = find_random_child w node rng in (Inr c, s, rng'))
         | Some cs \<Rightarrow> (let (r, s') = py_max score s cs in (r, s', rng))))"

subsection \<open>uct_select (lines 76-87)\<close>

text \<open>
  The local function \<open>uct\<close>, with \<open>vertex\<close> the logarithm computed by the caller.
  \<open>Q[n] / N[n]\<close> raises \<open>ZeroDivisionError\<close> when the count is 0, and \<open>math.sqrt\<close>
  raises \<open>ValueError\<close> on a negative argument. The second read of \<open>N[n]\<close> finds the
  key stored by the first. Each of the two divisions, the square root, the product and
  the sum is rounded.
\<close>

definition uct :: "real \<Rightarrow> 'n MCTS \<Rightarrow> 'n \<Rightarrow> (error + real) \<times> 'n MCTS" where
  "uct vertex s n =
     (let (q, Q1) = dd_get (Q s) n; s1 = s\<lparr>Q := Q1\<rparr>;
          (c, N1) = dd_get (N s1) n; s2 = s1\<lparr>N := N1\<rparr>
      in if c = 0 then (Inl ZeroDivisionError, s2)
         else if fl (vertex / real_of_int c) < 0 then (Inl ValueError, s2)
         else (Inr (fl (fl (q / real_of_int c)
                 + fl (exploration_weight s2 * fl (sqrt (fl (vertex / real_of_int c)))))),
               s2))"

text \<open>
  \<open>self.children[node]\<close> raises \<open>KeyError\<close> on a node that was never expanded, the
  assertion raises \<open>AssertionError\<close>, and \<open>math.log\<close> raises \<open>ValueError\<close> on a
  count that is not positive.
\<close>

definition uct_select :: "'n MCTS \<Rightarrow> 'n \<Rightarrow> (error + 'n) \<times> 'n MCTS" where
  "uct_select s node =
     (case children s node of
        None \<Rightarrow> (Inl KeyError, s)
      | Some cs \<Rightarrow>
          if \<not> list_all (\<lambda>n. children s n \<noteq> None) cs then (Inl AssertionError, s)
          else
            (let (c, N1) = dd_get (N s) node; s1 = s\<lparr>N := N1\<rparr> in
             if c \<le> 0 then (Inl ValueError, s1)
             else py_max (uct (fl (ln (real_of_int c)))) s1 cs))"

subsection \<open>select (lines 38-50)\<close>

text \<open>\<open>unexplored.pop()\<close> on a non-empty set.\<close>

definition set_pop :: "('n, 'r) node_class \<Rightarrow> 'n list \<Rightarrow> 'n" where
  "set_pop w xs = xs ! (pop_index w xs mod length xs)"

text \<open>
  The loop of \<open>select\<close>, with the path built so far. \<open>None\<close> when the loop never
  returns.
\<close>

partial_function (option) select_loop :: "('n, 'r) node_class \<Rightarrow> 'n MCTS \<Rightarrow> 'n \<Rightarrow> 'n list
    \<Rightarrow> ((error + 'n list) \<times> 'n MCTS) option" where
  "select_loop w s node path0 =
     (let path = path0 @ [node] in
      case children s node of
        None \<Rightarrow> Some (Inr path, s)
      | Some cs \<Rightarrow>
          if cs = [] then Some (Inr path, s)
          else
            (let unexplored = filter (\<lambda>c. children s c = None) cs in
             if unexplored \<noteq> [] then Some (Inr (path @ [set_pop w unexplored]), s)
             else
               (case uct_select s node of
                  (Inl e, s') \<Rightarrow> Some (Inl e, s')
                | (Inr n, s') \<Rightarrow> select_loop w s' n path)))"

definition select :: "('n, 'r) node_class \<Rightarrow> 'n MCTS \<Rightarrow> 'n
    \<Rightarrow> ((error + 'n list) \<times> 'n MCTS) option" where
  "select w s node = select_loop w s node []"

subsection \<open>expand (lines 53-56)\<close>

definition expand :: "('n, 'r) node_class \<Rightarrow> 'n MCTS \<Rightarrow> 'n \<Rightarrow> 'n MCTS" where
  "expand w s node =
     (case children s node of
        Some cs \<Rightarrow> s
      | None \<Rightarrow> s\<lparr>children := (children s)(node \<mapsto> find_children w node)\<rparr>)"

subsection \<open>simulate (lines 59-66)\<close>

text \<open>
  The loop of \<open>simulate\<close>, with the flag \<open>invert_reward\<close>. \<open>None\<close> when the playout
  never reaches a terminal node. The subtraction \<open>1 - reward\<close> is rounded.
\<close>

partial_function (option) simulate_loop :: "('n, 'r) node_class \<Rightarrow> 'n \<Rightarrow> bool \<Rightarrow> 'r
    \<Rightarrow> (real \<times> 'r) option" where
  "simulate_loop w node invert_reward rng =
     (if is_terminal w node
      then Some (if invert_reward then fl (1 - reward w node) else reward w node, rng)
      else
        (case find_random_child w node rng of
           (node', rng') \<Rightarrow> simulate_loop w node' (\<not> invert_reward) rng'))"

definition simulate :: "('n, 'r) node_class \<Rightarrow> 'n \<Rightarrow> 'r \<Rightarrow> (real \<times> 'r) option" where
  "simulate w node rng = simulate_loop w node True rng"

subsection \<open>backpropagate (lines 69-73)\<close>

text \<open>
  The loop body, on the nodes of \<open>reversed(path)\<close> still to visit. The addition
  \<open>Q[node] += reward\<close> and the subtraction \<open>1 - reward\<close> are rounded.
\<close>

fun backpropagate_loop :: "'n MCTS \<Rightarrow> 'n list \<Rightarrow> real \<Rightarrow> 'n MCTS" where
  "backpropagate_loop s [] r = s"
| "backpropagate_loop s (node # rest) r =
     (let s1 = s\<lparr>N := (N s)(node \<mapsto> dd_val (N s) node + 1)\<rparr>;
          s2 = s1\<lparr>Q := (Q s1)(node \<mapsto> fl (dd_val (Q s1) node + r))\<rparr>
      in backpropagate_loop s2 rest (fl (1 - r)))"

definition backpropagate :: "'n MCTS \<Rightarrow> 'n list \<Rightarrow> real \<Rightarrow> 'n MCTS" where
  "backpropagate s path r = backpropagate_loop s (rev path) r"

subsection \<open>rollout (lines 30-35)\<close>

text \<open>\<open>path[-1]\<close> raises \<open>IndexError\<close> on an empty list.\<close>

definition rollout :: "('n, 'r) node_class \<Rightarrow> 'n MCTS \<Rightarrow> 'r \<Rightarrow> 'n
    \<Rightarrow> ((error + unit) \<times> 'n MCTS \<times> 'r) option" where
  "rollout w s rng node =
     (case select w s node of
        None \<Rightarrow> None
      | Some (Inl e, s1) \<Rightarrow> Some (Inl e, s1, rng)
      | Some (Inr path, s1) \<Rightarrow>
          if path = [] then Some (Inl IndexError, s1, rng)
          else
            (let leaf = last path; s2 = expand w s1 leaf in
             case simulate w leaf rng of
               None \<Rightarrow> None
             | Some (r, rng') \<Rightarrow> Some (Inr (), backpropagate s2 path r, rng')))"

subsection \<open>Notions of the specification\<close>

text \<open>
  The mean reward of the specification: cumulative reward divided by visit count, the
  division being that of floats, and negative infinity (\<open>None\<close>) for a node with visit
  count 0. Absent entries read as 0.
\<close>

definition mean_reward :: "'n MCTS \<Rightarrow> 'n \<Rightarrow> real option" where
  "mean_reward s n =
     (if dd_val (N s) n = 0 then None
      else Some (fl (dd_val (Q s) n / real_of_int (dd_val (N s) n))))"

text \<open>
  Two engines that read the same: every node has the same cumulative reward and the
  same visit count (absent entries read as 0), and the children table and the
  exploration weight are equal.
\<close>

definition same_reads :: "'n MCTS \<Rightarrow> 'n MCTS \<Rightarrow> bool" where
  "same_reads s s' \<longleftrightarrow>
     (\<forall>n. dd_val (N s') n = dd_val (N s) n) \<and> (\<forall>n. dd_val (Q s') n = dd_val (Q s) n)
     \<and> children s' = children s \<and> exploration_weight s' = exploration_weight s"

text \<open>
  The contract of the specification on a game: a node is terminal exactly when it has no
  successor.
\<close>

definition conforming :: "('n, 'r) node_class \<Rightarrow> bool" where
  "conforming w \<longleftrightarrow> (\<forall>n. is_terminal w n \<longleftrightarrow> find_children w n = [])"

subsection \<open>A small game\<close>

text \<open>
  A game on the natural numbers, used to run the engine on concrete inputs: a move
  takes one or two from the number, 0 is terminal, and the random successor takes one.
  The source of randomness counts the draws.
\<close>

definition countdown :: "(nat, nat) node_class" where
  "countdown = \<lparr>
     find_children = (\<lambda>n. if n = 0 then [] else if n = 1 then [0] else [n - 1, n - 2]),
     find_random_child = (\<lambda>n r. (n - 1, Suc r)),
     is_terminal = (\<lambda>n. n = 0),
     reward = (\<lambda>n. 1),
     pop_index = (\<lambda>xs. 0)\<rparr>"

text \<open>
  The same game with the reward 0.1 at the terminal node: the float nearest to one
  tenth, which is \<open>3602879701896397 / 2 ^ 55\<close>.
\<close>

definition tenth_game :: "(nat, nat) node_class" where
  "tenth_game = countdown\<lparr>reward := (\<lambda>n. 3602879701896397 / 2 ^ 55)\<rparr>"

text \<open>An engine in which node 3 is expanded, child 1 was visited once and child 2 never.\<close>

definition sample_engine :: "nat MCTS" where
  "sample_engine = \<lparr>Q = [1 \<mapsto> 0], N = [1 \<mapsto> 1], children = [3 \<mapsto> [2, 1]],
     exploration_weight = 1\<rparr>"

text \<open>
  An engine in which node 3 is expanded, child 1 was visited three times with cumulative
  reward 1, and child 2 once with the reward 0.3333333333333333, the float nearest to
  one third, which is \<open>6004799503160661 / 2 ^ 54\<close>.
\<close>

definition tie_engine :: "nat MCTS" where
  "tie_engine = \<lparr>Q = [1 \<mapsto> 1, 2 \<mapsto> 6004799503160661 / 2 ^ 54], N = [1 \<mapsto> 3, 2 \<mapsto> 1],
     children = [3 \<mapsto> [2, 1]], exploration_weight = 1\<rparr>"


text \<open>
  The random playout of the specification: the node reached from \<open>node\<close> after \<open>k\<close>
  random steps, and the source of randomness left by the \<open>k\<close> draws.
\<close>

primrec playout :: "('n, 'r) node_class \<Rightarrow> nat \<Rightarrow> 'n \<Rightarrow> 'r \<Rightarrow> 'n \<times> 'r" where
  "playout w 0 node rng = (node, rng)"
| "playout w (Suc k) node rng =
     (case find_random_child w node rng of (node', rng') \<Rightarrow> playout w k node' rng')"

text \<open>The engine \<open>sample_engine\<close> after one rollout from node 3 in \<open>countdown\<close>.\<close>

definition sample_engine_rolled :: "nat MCTS" where
  "sample_engine_rolled = \<lparr>Q = [1 \<mapsto> 0, 2 \<mapsto> 0, 3 \<mapsto> 1], N = [1 \<mapsto> 1, 2 \<mapsto> 1, 3 \<mapsto> 1],
     children = [3 \<mapsto> [2, 1], 2 \<mapsto> [1, 0]], exploration_weight = 1\<rparr>"

subsection \<open>Engines reached by the operations\<close>

text \<open>
  The engines that a caller can hold: the fresh engine of \<open>__init__\<close>, and the engine
  left by a call of \<open>rollout\<close> or \<open>choose\<close> that returned or raised, on any node and
  with any source of randomness. (A rollout whose \<open>simulate\<close> never returns leaves
  nothing to call.)
\<close>

inductive reachable :: "('n, 'r) node_class \<Rightarrow> 'n MCTS \<Rightarrow> bool" for w where
  init: "reachable w (MCTS_init ew)"
| after_rollout: "reachable w s \<Longrightarrow> rollout w s rng node = Some (out, s', rng')
    \<Longrightarrow> reachable w s'"
| after_choose: "reachable w s \<Longrightarrow> choose_node w s rng node = (out, s', rng')
    \<Longrightarrow> reachable w s'"

text \<open>
  The driving loop of the specification: \<open>k\<close> calls of \<open>rollout\<close> on one node, stopped
  by the first exception.
\<close>

primrec rollouts :: "('n, 'r) node_class \<Rightarrow> nat \<Rightarrow> 'n \<Rightarrow> 'n MCTS \<Rightarrow> 'r
    \<Rightarrow> ((error + unit) \<times> 'n MCTS \<times> 'r) option" where
  "rollouts w 0 node s rng = Some (Inr (), s, rng)"
| "rollouts w (Suc k) node s rng =
     (case rollout w s rng node of
        None \<Rightarrow> None
      | Some (Inl e, s', rng') \<Rightarrow> Some (Inl e, s', rng')
      | Some (Inr u, s', rng') \<Rightarrow> rollouts w k node s' rng')"

text \<open>
  The branch of the loop of \<open>select\<close> that calls \<open>uct_select\<close>: the node is expanded to
  a set that is not empty, and none of its members is unexplored.
\<close>

definition uct_called :: "'n MCTS \<Rightarrow> 'n \<Rightarrow> 'n list \<Rightarrow> bool" where
  "uct_called s node cs \<longleftrightarrow>
     children s node = Some cs \<and> cs \<noteq> [] \<and> filter (\<lambda>c. children s c = None) cs = []"

text \<open>
  The invariant of the tables: no visit count is negative, and every key of the children
  table is a key of both \<open>N\<close> and \<open>Q\<close>, with visit count at least 1.
\<close>

definition well_visited :: "'n MCTS \<Rightarrow> bool" where
  "well_visited s \<longleftrightarrow>
     (\<forall>n. 0 \<le> dd_val (N s) n)
     \<and> (\<forall>n. children s n \<noteq> None \<longrightarrow> N s n \<noteq> None \<and> Q s n \<noteq> None \<and> 1 \<le> dd_val (N s) n)"

text \<open>The keys of \<open>N\<close> and \<open>Q\<close> in one engine are keys in the other.\<close>

definition keys_kept :: "'n MCTS \<Rightarrow> 'n MCTS \<Rightarrow> bool" where
  "keys_kept s s' \<longleftrightarrow>
     (\<forall>n. N s n \<noteq> None \<longrightarrow> N s' n \<noteq> None) \<and> (\<forall>n. Q s n \<noteq> None \<longrightarrow> Q s' n \<noteq> None)"

text \<open>The engines after one, two and three rollouts from node 1 in \<open>countdown\<close>.\<close>

definition one_rollout_engine :: "nat MCTS" where
  "one_rollout_engine = \<lparr>Q = [1 \<mapsto> 1], N = [1 \<mapsto> 1], children = [1 \<mapsto> [0]],
     exploration_weight = 1\<rparr>"

definition two_rollouts_engine :: "nat MCTS" where
  "two_rollouts_engine = \<lparr>Q = [0 \<mapsto> 0, 1 \<mapsto> 2], N = [0 \<mapsto> 1, 1 \<mapsto> 2],
     children = [1 \<mapsto> [0], 0 \<mapsto> []], exploration_weight = 1\<rparr>"

definition three_rollouts_engine :: "nat MCTS" where
  "three_rollouts_engine = \<lparr>Q = [0 \<mapsto> 0, 1 \<mapsto> 3], N = [0 \<mapsto> 2, 1 \<mapsto> 3],
     children = [1 \<mapsto> [0], 0 \<mapsto> []], exploration_weight = 1\<rparr>"

text \<open>The engines after one, two and three rollouts from node 2 in \<open>countdown\<close>.\<close>

definition rolled_once :: "nat MCTS" where
  "rolled_once = \<lparr>Q = [2 \<mapsto> 0], N = [2 \<mapsto> 1], children = [2 \<mapsto> [1, 0]],
     exploration_weight = 1\<rparr>"

definition rolled_twice :: "nat MCTS" where
  "rolled_twice = \<lparr>Q = [1 \<mapsto> 1, 2 \<mapsto> 0], N = [1 \<mapsto> 1, 2 \<mapsto> 2],
     children = [2 \<mapsto> [1, 0], 1 \<mapsto> [0]], exploration_weight = 1\<rparr>"

definition rolled_thrice :: "nat MCTS" where
  "rolled_thrice = \<lparr>Q = [1 \<mapsto> 1, 0 \<mapsto> 0, 2 \<mapsto> 1], N = [1 \<mapsto> 1, 0 \<mapsto> 1, 2 \<mapsto> 3],
     children = [2 \<mapsto> [1, 0], 1 \<mapsto> [0], 0 \<mapsto> []], exploration_weight = 1\<rparr>"

text \<open>
  The engine \<open>two_rollouts_engine\<close> after one more rollout, from the terminal node 0.
\<close>

definition terminal_rolled :: "nat MCTS" where
  "terminal_rolled = \<lparr>Q = [1 \<mapsto> 2, 0 \<mapsto> 0], N = [1 \<mapsto> 2, 0 \<mapsto> 2],
     children = [1 \<mapsto> [0], 0 \<mapsto> []], exploration_weight = 1\<rparr>"

section \<open>Properties\<close>

subsection \<open>Rounding\<close>

lemma round_even_of_int: "round_even (of_int k) = k"
  by (simp add: round_even_def)

lemma round_even_near: "\<bar>x - of_int k\<bar> < 1 / 2 \<Longrightarrow> round_even x = k"
proof -
  assume a: "\<bar>x - of_int k\<bar> < 1 / 2"
  show ?thesis
  proof (cases "of_int k \<le> x")
    case True
    then have "\<lfloor>x\<rfloor> = k" using a by (intro floor_unique) auto
    then show ?thesis using a True by (simp add: round_even_def Let_def)
  next
    case False
    then have f: "\<lfloor>x\<rfloor> = k - 1" using a by (intro floor_unique) auto
    have "1 / 2 < x - of_int (k - 1)" using a False by auto
    then show ?thesis using f by (simp add: round_even_def Let_def)
  qed
qed



lemma round_even_nonneg: "0 \<le> x \<Longrightarrow> 0 \<le> round_even x"
  unfolding round_even_def Let_def by auto


text \<open>The exponent of a number that lies in a known binade.\<close>

lemma floor_log2:
  assumes "2 powr of_int e \<le> \<bar>x\<bar>" and "\<bar>x\<bar> < 2 powr of_int (e + 1)"
  shows "\<lfloor>log 2 \<bar>x\<bar>\<rfloor> = e"
proof -
  have pos: "0 < \<bar>x\<bar>" using assms(1) by (smt (verit) powr_gt_zero)
  have "log 2 (2 powr of_int e) \<le> log 2 \<bar>x\<bar>"
    using assms(1) pos by (subst log_le_cancel_iff) auto
  then have l: "of_int e \<le> log 2 \<bar>x\<bar>" by simp
  have "log 2 \<bar>x\<bar> < log 2 (2 powr of_int (e + 1))"
    using assms(2) pos by (subst log_less_cancel_iff) auto
  then have u: "log 2 \<bar>x\<bar> < of_int e + 1" by simp
  show ?thesis using l u by (intro floor_unique) auto
qed

lemma fl_0: "fl 0 = 0"
  by (simp add: fl_def)

lemma fl_binade:
  assumes "2 powr of_int e \<le> \<bar>x\<bar>" and "\<bar>x\<bar> < 2 powr of_int (e + 1)"
  shows "fl x = of_int (round_even (x / 2 powr of_int (max e (- 1022) - 52)))
                  * 2 powr of_int (max e (- 1022) - 52)"
proof -
  have "x \<noteq> 0" using assms(1) by (smt (verit) powr_gt_zero)
  then show ?thesis
    using floor_log2 [OF assms] by (simp add: fl_def ulp_exponent_def)
qed

lemma fl_nearest:
  assumes "2 powr of_int e \<le> \<bar>x\<bar>" and "\<bar>x\<bar> < 2 powr of_int (e + 1)" and "- 1022 \<le> e"
    and "\<bar>x / 2 powr of_int (e - 52) - of_int k\<bar> < 1 / 2"
  shows "fl x = of_int k * 2 powr of_int (e - 52)"
proof -
  have m: "max e (- 1022) = e" using assms(3) by simp
  show ?thesis
    using fl_binade [OF assms(1,2)] round_even_near [OF assms(4)] by (simp only: m)
qed

text \<open>Rounding keeps the sign.\<close>

lemma fl_nonneg: "0 \<le> x \<Longrightarrow> 0 \<le> fl x"
  by (simp add: fl_def round_even_nonneg)

text \<open>
  A number with a significand of at most 53 bits and an exponent in range is a float:
  rounding leaves it as it is.
\<close>

lemma fl_multiple:
  assumes x: "x = of_int k * 2 powr of_int z" and z: "- 1074 \<le> z" and k: "\<bar>k\<bar> < 2 ^ 53"
  shows "fl x = x"
proof (cases "x = 0")
  case True
  then show ?thesis by (simp add: fl_0)
next
  case False
  define E where "E = ulp_exponent x"
  have ax: "\<bar>x\<bar> = of_int \<bar>k\<bar> * 2 powr of_int z" by (simp add: x abs_mult)
  have "of_int \<bar>k\<bar> < (2::real) ^ 53" using k by (metis of_int_less_numeral_power_cancel_iff)
  then have "of_int \<bar>k\<bar> < 2 powr (53::real)" by (simp add: powr_numeral)
  then have "\<bar>x\<bar> < 2 powr 53 * 2 powr of_int z" unfolding ax by simp
  then have lt: "\<bar>x\<bar> < 2 powr (of_int z + 53)" by (simp add: powr_add mult.commute)
  have "log 2 \<bar>x\<bar> < log 2 (2 powr (of_int z + 53))"
    using lt False by (subst log_less_cancel_iff) auto
  then have "log 2 \<bar>x\<bar> < of_int (z + 53)" by simp
  then have "\<lfloor>log 2 \<bar>x\<bar>\<rfloor> < z + 53" by (simp add: floor_less_iff)
  then have Ez: "E \<le> z" using z by (simp add: E_def ulp_exponent_def)
  have "(2::real) powr of_int z = 2 powr of_int (z - E) * 2 powr of_int E"
    by (simp add: powr_add [symmetric])
  also have "2 powr of_int (z - E) = (2::real) ^ nat (z - E)"
    using Ez powr_real_of_int [of 2 "z - E"] by simp
  finally have p: "2 powr of_int z = (2::real) ^ nat (z - E) * 2 powr of_int E" .
  have q: "x / 2 powr of_int E = of_int (k * 2 ^ nat (z - E))"
    by (simp add: x p)
  have "fl x = of_int (round_even (x / 2 powr of_int E)) * 2 powr of_int E"
    using False by (simp add: fl_def E_def)
  also have "\<dots> = of_int (k * 2 ^ nat (z - E)) * 2 powr of_int E"
    by (simp only: q round_even_of_int)
  also have "\<dots> = x" by (simp add: x p)
  finally show ?thesis .
qed

lemma fl_of_int: "\<bar>k\<bar> < 2 ^ 53 \<Longrightarrow> fl (of_int k) = of_int k"
  using fl_multiple [of "of_int k" k 0] by simp

lemma fl_1: "fl 1 = 1"
  using fl_of_int [of 1] by simp

lemma fl_2: "fl 2 = 2"
  using fl_of_int [of 2] by simp

lemma fl_3: "fl 3 = 3"
  using fl_of_int [of 3] by simp

lemma fl_dyadic:
  assumes "\<bar>k\<bar> < 2 ^ 53" and "n \<le> 1074"
  shows "fl (real_of_int k / 2 ^ n) = real_of_int k / 2 ^ n"
proof -
  have "(2::real) powr of_int (- int n) = 1 / 2 ^ n"
    by (simp add: powr_minus powr_realpow divide_inverse)
  then have "real_of_int k / 2 ^ n = real_of_int k * 2 powr of_int (- int n)"
    by (simp only: times_divide_eq_right mult_1_right)
  moreover have "- 1074 \<le> - int n" using assms(2) by simp
  ultimately show ?thesis using assms(1) by (rule fl_multiple)
qed








lemma fl_nine_tenths: "fl (8106479329266893 / 2 ^ 53) = 8106479329266893 / 2 ^ 53"
  using fl_dyadic [of 8106479329266893 53] by simp


lemma fl_third: "fl (6004799503160661 / 2 ^ 54) = 6004799503160661 / 2 ^ 54"
  using fl_dyadic [of 6004799503160661 54] by simp

lemma fl_one_minus_tenth: "fl (1 - 3602879701896397 / 2 ^ 55) = 8106479329266893 / 2 ^ 53"
  using fl_nearest [of "- 1" "1 - 3602879701896397 / 2 ^ 55" 8106479329266893]
  by (simp add: powr_neg_numeral)


lemma fl_one_third: "fl (1 / 3) = 6004799503160661 / 2 ^ 54"
  using fl_nearest [of "- 2" "1 / 3" 6004799503160661]
  by (simp add: powr_neg_numeral)




subsection \<open>Reads of the tables\<close>

lemma same_reads_refl: "same_reads s s"
  by (simp add: same_reads_def)

lemma same_reads_trans: "same_reads s s1 \<Longrightarrow> same_reads s1 s2 \<Longrightarrow> same_reads s s2"
  by (simp add: same_reads_def)

lemma dd_val_dd_get: "dd_val (snd (dd_get m k)) j = dd_val m j"
  by (simp add: dd_val_def dd_get_def split: option.splits)

lemma fst_dd_get: "fst (dd_get m k) = dd_val m k"
  by (simp add: dd_val_def dd_get_def split: option.splits)

lemma mean_reward_same_reads: "same_reads s s' \<Longrightarrow> mean_reward s' n = mean_reward s n"
  by (simp add: mean_reward_def same_reads_def)

subsection \<open>The key function of choose computes the mean reward\<close>

lemma score_reads: "\<exists>s'. score s n = (Inr (mean_reward s n), s') \<and> same_reads s s'"
  by (auto simp: score_def mean_reward_def same_reads_def Let_def split_beta dd_val_dd_get
      fst_dd_get)

lemma score_step:
  "\<exists>s1. score s x = (Inr (mean_reward s x), s1) \<and> same_reads s s1
     \<and> (\<forall>n. mean_reward s1 n = mean_reward s n)"
proof -
  from score_reads [of s x] obtain s1 where k: "score s x = (Inr (mean_reward s x), s1)"
    and r: "same_reads s s1"
    by auto
  have "\<forall>n. mean_reward s1 n = mean_reward s n"
    using r by (simp add: mean_reward_same_reads)
  with k r show ?thesis by auto
qed

lemma max_loop_score:
  "\<exists>b s'. max_loop score s best (mean_reward s best) xs = (Inr b, s') \<and> same_reads s s'
     \<and> b \<in> set (best # xs) \<and> (\<forall>x \<in> set (best # xs). mean_reward s x \<le> mean_reward s b)"
proof (induction xs arbitrary: s best)
  case Nil
  show ?case by (simp add: same_reads_refl)
next
  case (Cons x xs)
  from score_step [of s x] obtain s1 where
    k: "score s x = (Inr (mean_reward s x), s1)" and r: "same_reads s s1"
    and m: "\<forall>n. mean_reward s1 n = mean_reward s n"
    by auto
  show ?case
  proof (cases "mean_reward s x > mean_reward s best")
    case True
    have "\<exists>b s'. max_loop score s1 x (mean_reward s x) xs = (Inr b, s') \<and> same_reads s1 s'
       \<and> b \<in> set (x # xs) \<and> (\<forall>y \<in> set (x # xs). mean_reward s y \<le> mean_reward s b)"
      using Cons.IH [of s1 x] by (simp only: m)
    then obtain b s' where
      run: "max_loop score s1 x (mean_reward s x) xs = (Inr b, s')" and r': "same_reads s1 s'"
      and b: "b \<in> set (x # xs)" and mx: "\<forall>y \<in> set (x # xs). mean_reward s y \<le> mean_reward s b"
      by auto
    have e: "max_loop score s best (mean_reward s best) (x # xs) = (Inr b, s')"
      using True k run by simp
    have "mean_reward s x \<le> mean_reward s b" using mx by simp
    then have "mean_reward s best \<le> mean_reward s b" using True by simp
    then have "\<forall>y \<in> set (best # x # xs). mean_reward s y \<le> mean_reward s b"
      using mx by simp
    moreover have "b \<in> set (best # x # xs)" using b by simp
    moreover have "same_reads s s'" using r r' by (rule same_reads_trans)
    ultimately show ?thesis using e by simp
  next
    case False
    have "\<exists>b s'. max_loop score s1 best (mean_reward s best) xs = (Inr b, s') \<and> same_reads s1 s'
       \<and> b \<in> set (best # xs) \<and> (\<forall>y \<in> set (best # xs). mean_reward s y \<le> mean_reward s b)"
      using Cons.IH [of s1 best] by (simp only: m)
    then obtain b s' where
      run: "max_loop score s1 best (mean_reward s best) xs = (Inr b, s')" and r': "same_reads s1 s'"
      and b: "b \<in> set (best # xs)" and mx: "\<forall>y \<in> set (best # xs). mean_reward s y \<le> mean_reward s b"
      by auto
    have e: "max_loop score s best (mean_reward s best) (x # xs) = (Inr b, s')"
      using False k run by simp
    have le1: "mean_reward s best \<le> mean_reward s b" using mx by simp
    have le2: "mean_reward s x \<le> mean_reward s best" using False by simp
    have "mean_reward s x \<le> mean_reward s b" using le2 le1 by (rule order.trans)
    then have "\<forall>y \<in> set (best # x # xs). mean_reward s y \<le> mean_reward s b"
      using mx by simp
    moreover have "b \<in> set (best # x # xs)" using b by auto
    moreover have "same_reads s s'" using r r' by (rule same_reads_trans)
    ultimately show ?thesis using e by simp
  qed
qed

lemma py_max_score:
  assumes "cs \<noteq> []"
  shows "\<exists>b s'. py_max score s cs = (Inr b, s') \<and> same_reads s s'
     \<and> b \<in> set cs \<and> (\<forall>x \<in> set cs. mean_reward s x \<le> mean_reward s b)"
proof -
  obtain x xs where cs: "cs = x # xs" using assms by (cases cs) auto
  from score_step [of s x] obtain s1 where
    k: "score s x = (Inr (mean_reward s x), s1)" and r: "same_reads s s1"
    and m: "\<forall>n. mean_reward s1 n = mean_reward s n"
    by auto
  have "\<exists>b s'. max_loop score s1 x (mean_reward s x) xs = (Inr b, s') \<and> same_reads s1 s'
       \<and> b \<in> set (x # xs) \<and> (\<forall>y \<in> set (x # xs). mean_reward s y \<le> mean_reward s b)"
    using max_loop_score [of s1 x xs] by (simp only: m)
  then obtain b s' where
      run: "max_loop score s1 x (mean_reward s x) xs = (Inr b, s')" and r': "same_reads s1 s'"
      and b: "b \<in> set (x # xs)" and mx: "\<forall>y \<in> set (x # xs). mean_reward s y \<le> mean_reward s b"
    by auto
  have "py_max score s cs = (Inr b, s')"
    using k run cs by (simp add: py_max_def)
  moreover have "same_reads s s'" using r r' by (rule same_reads_trans)
  ultimately show ?thesis using b mx unfolding cs by simp
qed



subsection \<open>choose\<close>

text \<open>
  Claim C6. On a node whose \<open>is_terminal()\<close> is true, \<open>choose\<close> raises its
  \<open>RuntimeError\<close> and returns no node, whatever the tables of the engine hold; the
  engine and the source of randomness are left as they were.
\<close>

theorem choose_terminal_raises:
  "is_terminal w node \<Longrightarrow> choose_node w s rng node = (Inl RuntimeError, s, rng)"
  by (simp add: choose_node_def)

theorem choose_terminal_raises_witness:
  "is_terminal countdown 0
   \<and> choose_node countdown sample_engine 0 0 = (Inl RuntimeError, sample_engine, 0)"
  using choose_terminal_raises [of countdown 0 sample_engine 0]
  by (simp add: countdown_def)

text \<open>
  Claim C7. On a node that is not terminal and is not a key of the children table,
  \<open>choose\<close> raises nothing: it returns the node that \<open>find_random_child\<close> draws, and
  leaves the engine as it was.
\<close>

theorem choose_unexpanded_random:
  assumes "\<not> is_terminal w node" and "children s node = None"
  shows "choose_node w s rng node
    = (Inr (fst (find_random_child w node rng)), s, snd (find_random_child w node rng))"
  using assms by (simp add: choose_node_def split_beta)

theorem choose_unexpanded_random_witness:
  "\<not> is_terminal countdown 2 \<and> children sample_engine 2 = None
   \<and> choose_node countdown sample_engine 0 2 = (Inr 1, sample_engine, 1)"
  using choose_unexpanded_random [of countdown 2 sample_engine 0]
  by (simp add: countdown_def sample_engine_def)

lemma choose_node_reads: "same_reads s (fst (snd (choose_node w s rng node)))"
proof (cases "children s node")
  case None
  then show ?thesis by (simp add: choose_node_def split_beta same_reads_refl)
next
  case (Some cs)
  show ?thesis
  proof (cases "cs = []")
    case True
    with Some show ?thesis by (simp add: choose_node_def py_max_def same_reads_refl)
  next
    case False
    from py_max_score [OF False, of s] obtain b s' where
      "py_max score s cs = (Inr b, s')" "same_reads s s'" by auto
    with Some show ?thesis by (simp add: choose_node_def same_reads_refl)
  qed
qed

text \<open>
  Claim C9. \<open>choose\<close> is a query: for every engine and every argument, the engine it
  leaves behind reads the same as the engine it was called on. Every node has the same
  cumulative reward and the same visit count, absent entries read as 0, and the
  children table is the same. (The table \<open>N\<close> itself may gain keys with the value 0,
  stored by the reads of \<open>score\<close>.)
\<close>

theorem choose_same_reads:
  "same_reads s (fst (snd (choose_node w s rng node)))"
  by (rule choose_node_reads)

theorem choose_same_reads_witness:
  "same_reads sample_engine (fst (snd (choose_node countdown sample_engine 0 3)))
   \<and> N (fst (snd (choose_node countdown sample_engine 0 3))) = [1 \<mapsto> 1, 2 \<mapsto> 0]"
  using choose_same_reads [of sample_engine countdown 0 3]
  by (simp add: choose_node_def py_max_def score_def dd_get_def countdown_def
      sample_engine_def fl_0)

subsection \<open>backpropagate\<close>





lemma dd_val_upd: "dd_val (m(k \<mapsto> v)) j = (if j = k then v else dd_val m j)"
  by (simp add: dd_val_def)

lemma backpropagate_loop_frame:
  "children (backpropagate_loop s xs r) = children s
   \<and> exploration_weight (backpropagate_loop s xs r) = exploration_weight s"
  by (induction xs arbitrary: s r) (simp_all add: Let_def)

lemma backpropagate_loop_N:
  "dd_val (N (backpropagate_loop s xs r)) n = dd_val (N s) n + int (count_list xs n)"
  by (induction xs arbitrary: s r) (simp_all add: Let_def dd_val_upd)









subsection \<open>simulate\<close>

text \<open>
  The loop with any starting flag: when the playout first reaches a terminal node after
  \<open>k\<close> random steps, the loop returns, and the flag has been flipped \<open>k\<close> times.
\<close>

lemma simulate_loop_playout:
  assumes "is_terminal w (fst (playout w k node rng))"
    and "\<forall>j<k. \<not> is_terminal w (fst (playout w j node rng))"
  shows "simulate_loop w node flag rng
    = Some (if flag = even k then fl (1 - reward w (fst (playout w k node rng)))
            else reward w (fst (playout w k node rng)),
            snd (playout w k node rng))"
  using assms
proof (induction k arbitrary: node flag rng)
  case 0
  then have "is_terminal w node" by simp
  then show ?case by (subst simulate_loop.simps) simp
next
  case (Suc k)
  obtain node' rng' where step: "find_random_child w node rng = (node', rng')"
    by (cases "find_random_child w node rng")
  have nt: "\<not> is_terminal w node"
    using Suc.prems(2) by (elim allE [of _ 0]) simp
  have t': "is_terminal w (fst (playout w k node' rng'))"
    using Suc.prems(1) step by simp
  have m': "\<forall>j<k. \<not> is_terminal w (fst (playout w j node' rng'))"
  proof (intro allI impI)
    fix j assume "j < k"
    then have "Suc j < Suc k" by simp
    with Suc.prems(2) have "\<not> is_terminal w (fst (playout w (Suc j) node rng))"
      by (elim allE [of _ "Suc j"]) (simp only: simp_thms)
    then show "\<not> is_terminal w (fst (playout w j node' rng'))"
      using step by simp
  qed
  have "simulate_loop w node flag rng = simulate_loop w node' (\<not> flag) rng'"
    using nt step by (subst simulate_loop.simps) simp
  also have "\<dots> = Some (if (\<not> flag) = even k
            then fl (1 - reward w (fst (playout w k node' rng')))
            else reward w (fst (playout w k node' rng')),
            snd (playout w k node' rng'))"
    using t' m' by (rule Suc.IH)
  finally show ?case using step by auto
qed

text \<open>
  Claim C5. For every leaf from which the random playout reaches a terminal node,
  first after \<open>k\<close> random steps, \<open>simulate\<close> returns: the flag starts inverted and is
  flipped once per step, so the result is 1 minus the reward of that terminal node when
  \<open>k\<close> is even (also when \<open>k\<close> is 0 and the leaf itself is terminal) and the reward
  unchanged when \<open>k\<close> is odd. The subtraction is the float subtraction of the code.
\<close>

theorem simulate_result:
  assumes "is_terminal w (fst (playout w k leaf rng))"
    and "\<forall>j<k. \<not> is_terminal w (fst (playout w j leaf rng))"
  shows "simulate w leaf rng
    = Some (if even k then fl (1 - reward w (fst (playout w k leaf rng)))
            else reward w (fst (playout w k leaf rng)),
            snd (playout w k leaf rng))"
  using simulate_loop_playout [OF assms, of True] by (simp add: simulate_def)


theorem simulate_result_witness:
  "is_terminal countdown (fst (playout countdown 2 2 0))
   \<and> \<not> is_terminal countdown (fst (playout countdown 0 2 0))
   \<and> \<not> is_terminal countdown (fst (playout countdown 1 2 0))
   \<and> simulate countdown 2 0 = Some (0, 2)
   \<and> simulate countdown 1 0 = Some (1, 1)
   \<and> simulate countdown 0 0 = Some (0, 0)"
proof -
  have t2: "is_terminal countdown (fst (playout countdown 2 2 0))"
    and n0: "\<not> is_terminal countdown (fst (playout countdown 0 2 0))"
    and n1: "\<not> is_terminal countdown (fst (playout countdown 1 2 0))"
    by (simp_all add: countdown_def numeral_2_eq_2)
  have m2: "\<forall>j<2. \<not> is_terminal countdown (fst (playout countdown j 2 0))"
    using n0 n1 by (auto simp: less_Suc_eq numeral_2_eq_2)
  have t1: "is_terminal countdown (fst (playout countdown 1 1 0))"
    and m1: "\<forall>j<1. \<not> is_terminal countdown (fst (playout countdown j 1 0))"
    and t0: "is_terminal countdown (fst (playout countdown 0 0 0))"
    and m0: "\<forall>j<0. \<not> is_terminal countdown (fst (playout countdown j 0 0))"
    by (simp_all add: countdown_def)
  have "simulate countdown 2 0 = Some (0, 2)"
    using simulate_result [OF t2 m2] by (simp add: countdown_def numeral_2_eq_2 fl_0)
  moreover have "simulate countdown 1 0 = Some (1, 1)"
    using simulate_result [OF t1 m1] by (simp add: countdown_def)
  moreover have "simulate countdown 0 0 = Some (0, 0)"
    using simulate_result [OF t0 m0] by (simp add: countdown_def fl_0)
  ultimately show ?thesis using t2 n0 n1 by simp
qed

subsection \<open>The steps of a rollout\<close>

lemma select_dead_end:
  assumes "children s node = None \<or> children s node = Some []"
  shows "select w s node = Some (Inr [node], s)"
  unfolding select_def using assms
  by (subst select_loop.simps) auto

lemma simulate_terminal:
  "is_terminal w node \<Longrightarrow> simulate w node rng = Some (fl (1 - reward w node), rng)"
  unfolding simulate_def by (subst simulate_loop.simps) simp

lemma expand_children:
  "children (expand w s node)
   = (case children s node of None \<Rightarrow> (children s)(node \<mapsto> find_children w node)
      | Some cs \<Rightarrow> children s)"
  by (simp add: expand_def split: option.splits)

lemma expand_frame:
  "N (expand w s node) = N s \<and> Q (expand w s node) = Q s
   \<and> exploration_weight (expand w s node) = exploration_weight s"
  by (simp add: expand_def split: option.splits)

lemma backpropagate_single:
  "backpropagate s [node] r
   = s\<lparr>N := (N s)(node \<mapsto> dd_val (N s) node + 1),
        Q := (Q s)(node \<mapsto> fl (dd_val (Q s) node + r))\<rparr>"
  by (simp add: backpropagate_def Let_def)

subsection \<open>The children table\<close>

lemma max_loop_children:
  assumes "\<And>s x. children (snd (key s x)) = children s"
  shows "children (snd (max_loop key s b k xs)) = children s"
proof (induction xs arbitrary: s b k)
  case Nil
  show ?case by simp
next
  case (Cons x xs)
  obtain r s1 where kx: "key s x = (r, s1)" by (cases "key s x")
  have c1: "children s1 = children s" using assms [of s x] kx by simp
  show ?case
  proof (cases r)
    case (Inl e)
    with kx c1 show ?thesis by simp
  next
    case (Inr v)
    with kx c1 Cons.IH [of s1] show ?thesis by simp
  qed
qed

lemma py_max_children:
  assumes "\<And>s x. children (snd (key s x)) = children s"
  shows "children (snd (py_max key s xs)) = children s"
proof (cases xs)
  case Nil
  then show ?thesis by (simp add: py_max_def)
next
  case (Cons x rest)
  obtain r s1 where kx: "key s x = (r, s1)" by (cases "key s x")
  have c1: "children s1 = children s" using assms [of s x] kx by simp
  show ?thesis
  proof (cases r)
    case (Inl e)
    with kx c1 Cons show ?thesis by (simp add: py_max_def)
  next
    case (Inr v)
    with kx c1 Cons max_loop_children [of key s1 x v rest, OF assms] show ?thesis
      by (simp add: py_max_def)
  qed
qed

lemma uct_children: "children (snd (uct v s n)) = children s"
  by (simp add: uct_def Let_def split_beta)

lemma uct_select_children: "children (snd (uct_select s node)) = children s"
proof (cases "children s node")
  case None
  then show ?thesis by (simp add: uct_select_def)
next
  case (Some cs)
  let ?s1 = "s\<lparr>N := snd (dd_get (N s) node)\<rparr>"
  have "children (snd (py_max (uct v) ?s1 cs)) = children s" for v
    using py_max_children [of "uct v" ?s1 cs] by (simp add: uct_children)
  with Some show ?thesis
    by (simp add: uct_select_def Let_def split_beta)
qed

lemma select_loop_children:
  assumes "select_loop w s node path0 = Some r"
  shows "children (snd r) = children s"
proof (rule select_loop.raw_induct
    [where P = "\<lambda>w s node path0 r. children (snd r) = children s", OF _ assms], goal_cases)
  case (1 sl w s node path0 r)
  note IH = 1(1) and body = 1(2)
  show ?case
  proof (cases "children s node")
    case None
    with body show ?thesis by auto
  next
    case (Some cs)
    show ?thesis
    proof (cases "cs = [] \<or> filter (\<lambda>c. children s c = None) cs \<noteq> []")
      case True
      with body Some show ?thesis by (auto simp: Let_def split: if_splits)
    next
      case False
      obtain o1 s1 where u: "uct_select s node = (o1, s1)" by (cases "uct_select s node")
      have c1: "children s1 = children s"
        using uct_select_children [of s node] u by simp
      show ?thesis
      proof (cases o1)
        case (Inl e)
        with body Some False u c1 show ?thesis by (auto simp: Let_def)
      next
        case (Inr n)
        with body Some False u have "sl w s1 n (path0 @ [node]) = Some r"
          by (simp add: Let_def)
        then have "children (snd r) = children s1" by (rule IH)
        with c1 show ?thesis by simp
      qed
    qed
  qed
qed


lemma select_children:
  "select w s node = Some (out, s') \<Longrightarrow> children s' = children s"
  unfolding select_def using select_loop_children [of w s node "[]" "(out, s')"] by simp

lemma score_children: "children (snd (score s n)) = children s"
  by (simp add: score_def Let_def split_beta)

lemma choose_children: "children (fst (snd (choose_node w s rng node))) = children s"
proof (cases "children s node")
  case None
  then show ?thesis by (simp add: choose_node_def split_beta)
next
  case (Some cs)
  have "children (snd (py_max score s cs)) = children s"
    by (rule py_max_children) (rule score_children)
  with Some show ?thesis by (simp add: choose_node_def split_beta)
qed

lemma backpropagate_children: "children (backpropagate s path r) = children s"
  unfolding backpropagate_def using backpropagate_loop_frame [of s "rev path" r] by simp

lemma expand_keeps:
  "children s node = Some cs \<Longrightarrow> children (expand w s n) node = Some cs"
  by (auto simp: expand_def split: option.splits)

lemma rollout_keeps:
  assumes "children s node = Some cs" and "rollout w s rng n = Some (out, s', rng')"
  shows "children s' node = Some cs"
proof (cases "select w s n")
  case None
  with assms(2) show ?thesis by (simp add: rollout_def)
next
  case (Some r)
  obtain o1 s1 where r: "r = (o1, s1)" by (cases r)
  have c1: "children s1 = children s" using Some r by (simp add: select_children)
  show ?thesis
  proof (cases o1)
    case (Inl e)
    with assms Some r c1 show ?thesis by (simp add: rollout_def)
  next
    case (Inr path)
    have k: "children (expand w s1 (last path)) node = Some cs"
      using assms(1) c1 by (simp add: expand_keeps)
    have k0: "children s1 node = Some cs" using assms(1) c1 by simp
    from assms(2) Some r Inr k k0 show ?thesis
      by (auto simp: rollout_def Let_def backpropagate_children
          split: if_splits option.splits)
  qed
qed

text \<open>
  Claim C8. Once the children set of a node is stored, no operation of the engine
  changes it. \<open>expand\<close> on an expanded node leaves the whole engine as it is, so that
  a second \<open>expand\<close> of the same node changes nothing, and \<open>expand\<close> of any node keeps
  the set stored for another. \<open>select\<close>, with its computation of the unexplored
  children and \<open>uct_select\<close>, \<open>backpropagate\<close> and \<open>choose\<close> leave the children table
  as it is, and a rollout keeps every stored set.
\<close>

theorem children_never_change:
  "expand w (expand w s node) node = expand w s node
   \<and> (children s node = Some cs \<longrightarrow> expand w s node = s)
   \<and> (children s node = Some cs \<longrightarrow> children (expand w s n) node = Some cs)
   \<and> (\<forall>out s'. select w s n = Some (out, s') \<longrightarrow> children s' = children s)
   \<and> children (snd (uct_select s n)) = children s
   \<and> children (backpropagate s path r) = children s
   \<and> children (fst (snd (choose_node w s rng n))) = children s
   \<and> (children s node = Some cs \<longrightarrow>
        (\<forall>out s' rng'. rollout w s rng n = Some (out, s', rng') \<longrightarrow> children s' node = Some cs))"
proof -
  have "expand w (expand w s node) node = expand w s node"
    by (simp add: expand_def split: option.splits)
  moreover have "children s node = Some cs \<longrightarrow> expand w s node = s"
    by (simp add: expand_def)
  moreover have "children s node = Some cs \<longrightarrow> children (expand w s n) node = Some cs"
    by (simp add: expand_keeps)
  moreover have "\<forall>out s'. select w s n = Some (out, s') \<longrightarrow> children s' = children s"
    by (simp add: select_children)
  moreover have "children s node = Some cs \<longrightarrow>
        (\<forall>out s' rng'. rollout w s rng n = Some (out, s', rng') \<longrightarrow> children s' node = Some cs)"
    using rollout_keeps [of s node cs w rng n] by simp
  ultimately show ?thesis
    by (simp only: uct_select_children backpropagate_children choose_children simp_thms)
qed

lemma rollout_sample_engine:
  "rollout countdown sample_engine 0 3 = Some (Inr (), sample_engine_rolled, 2)"
  by (simp add: rollout_def select_def select_loop.simps simulate_def simulate_loop.simps
      expand_def backpropagate_def countdown_def dd_val_def sample_engine_def set_pop_def
      sample_engine_rolled_def numeral_2_eq_2 numeral_3_eq_3 fl_0 fl_1)

theorem children_never_change_witness:
  "children sample_engine 3 = Some [2, 1]
   \<and> rollout countdown sample_engine 0 3 = Some (Inr (), sample_engine_rolled, 2)
   \<and> children sample_engine_rolled 3 = Some [2, 1]
   \<and> expand countdown sample_engine 3 = sample_engine"
proof -
  have h: "children sample_engine 3 = Some [2, 1]"
    by (simp add: sample_engine_def)
  note t = children_never_change [of countdown sample_engine 3 "[2, 1]" 3 "[]" 0 0]
  from t have "children sample_engine 3 = Some [2, 1] \<longrightarrow>
      (\<forall>out s' rng'. rollout countdown sample_engine 0 3 = Some (out, s', rng')
         \<longrightarrow> children s' 3 = Some [2, 1])"
    by (elim conjE)
  from this h have a: "\<forall>out s' rng'. rollout countdown sample_engine 0 3 = Some (out, s', rng')
         \<longrightarrow> children s' 3 = Some [2, 1]"
    by (rule mp)
  have c: "children sample_engine_rolled 3 = Some [2, 1]"
    by (rule a [rule_format, OF rollout_sample_engine])
  from t have "children sample_engine 3 = Some [2, 1]
      \<longrightarrow> expand countdown sample_engine 3 = sample_engine"
    by (elim conjE)
  from this h have "expand countdown sample_engine 3 = sample_engine"
    by (rule mp)
  with h c rollout_sample_engine show ?thesis by simp
qed

text \<open>
  The only write to the children table is that of \<open>expand\<close>, so a set that an engine
  records for a node is the set that \<open>find_children\<close> reports for it.
\<close>

lemma rollout_children:
  assumes "rollout w s rng n = Some (out, s', rng')" and "children s' m = Some cs"
  shows "children s m = Some cs \<or> cs = find_children w m"
proof (cases "select w s n")
  case None
  with assms(1) show ?thesis by (simp add: rollout_def)
next
  case (Some r)
  obtain o1 s1 where r: "r = (o1, s1)" by (cases r)
  have c1: "children s1 = children s" using Some r by (simp add: select_children)
  show ?thesis
  proof (cases o1)
    case (Inl e)
    with assms Some r c1 show ?thesis by (simp add: rollout_def)
  next
    case (Inr path)
    show ?thesis
    proof (cases "path = []")
      case True
      with assms Some r Inr c1 show ?thesis by (simp add: rollout_def)
    next
      case False
      from assms(1) Some r Inr False obtain rw where
        s': "s' = backpropagate (expand w s1 (last path)) path rw"
        by (cases "simulate w (last path) rng") (auto simp: rollout_def Let_def)
      have "children s' = children (expand w s1 (last path))"
        unfolding s' by (rule backpropagate_children)
      with assms(2) have "children (expand w s1 (last path)) m = Some cs" by simp
      then show ?thesis
        using c1 by (auto simp: expand_children split: option.splits if_splits)
    qed
  qed
qed

lemma reachable_children:
  "reachable w s \<Longrightarrow> children s n = Some cs \<Longrightarrow> cs = find_children w n"
proof (induction arbitrary: n cs rule: reachable.induct)
  case (init ew)
  then show ?case by (simp add: MCTS_init_def)
next
  case (after_rollout s rng node out s' rng')
  from after_rollout.hyps(2) after_rollout.prems
  have "children s n = Some cs \<or> cs = find_children w n" by (rule rollout_children)
  then show ?case using after_rollout.IH by auto
next
  case (after_choose s rng node out s' rng')
  have "children s' = children s"
    using choose_children [of w s rng node] after_choose.hyps(2) by simp
  then show ?case using after_choose.IH after_choose.prems by simp
qed

text \<open>
  In a game that meets the contract, a terminal node is never recorded with a child,
  and a node that is not terminal is never recorded with the empty set.
\<close>

lemma reachable_terminal_children:
  assumes "conforming w" and "reachable w s" and "children s n = Some cs"
  shows "is_terminal w n \<longleftrightarrow> cs = []"
proof -
  from assms(2,3) have "cs = find_children w n" by (rule reachable_children)
  with assms(1) show ?thesis by (simp add: conforming_def)
qed

subsection \<open>uct_select on an engine that satisfies the invariant\<close>

lemma dd_get_Some: "m k = Some v \<Longrightarrow> dd_get m k = (v, m)"
  by (simp add: dd_get_def)

lemma uct_known:
  assumes "Q s n = Some q" and "N s n = Some c" and "1 \<le> c" and "0 \<le> v"
  shows "\<exists>k. uct v s n = (Inr k, s)"
proof -
  have "0 \<le> v / real_of_int c" using assms(3,4) by simp
  then have "0 \<le> fl (v / real_of_int c)" by (rule fl_nonneg)
  then have "\<not> fl (v / real_of_int c) < 0" by simp
  then show ?thesis
    using assms by (simp add: uct_def dd_get_Some)
qed

lemma max_loop_known:
  assumes "\<forall>x \<in> set xs. \<exists>k. key s x = (Inr k, s)"
  shows "\<exists>b. max_loop key s best bk xs = (Inr b, s) \<and> b \<in> set (best # xs)"
  using assms
proof (induction xs arbitrary: best bk)
  case Nil
  show ?case by simp
next
  case (Cons x xs)
  from Cons.prems obtain k where k: "key s x = (Inr k, s)" by auto
  have rest: "\<forall>x \<in> set xs. \<exists>k. key s x = (Inr k, s)" using Cons.prems by simp
  show ?case
  proof (cases "k > bk")
    case True
    from rest have "\<exists>b. max_loop key s x k xs = (Inr b, s) \<and> b \<in> set (x # xs)"
      by (rule Cons.IH)
    then obtain b where
      "max_loop key s x k xs = (Inr b, s)" "b \<in> set (x # xs)" by auto
    with True k show ?thesis by simp
  next
    case False
    from rest have "\<exists>b. max_loop key s best bk xs = (Inr b, s) \<and> b \<in> set (best # xs)"
      by (rule Cons.IH)
    then obtain b where
      "max_loop key s best bk xs = (Inr b, s)" "b \<in> set (best # xs)" by auto
    with False k show ?thesis by auto
  qed
qed

lemma py_max_known:
  assumes "xs \<noteq> []" and "\<forall>x \<in> set xs. \<exists>k. key s x = (Inr k, s)"
  shows "\<exists>b. py_max key s xs = (Inr b, s) \<and> b \<in> set xs"
proof -
  obtain x rest where xs: "xs = x # rest" using assms(1) by (cases xs) auto
  from assms(2) xs obtain k where k: "key s x = (Inr k, s)" by auto
  have "\<forall>y \<in> set rest. \<exists>k. key s y = (Inr k, s)" using assms(2) xs by simp
  then have "\<exists>b. max_loop key s x k rest = (Inr b, s) \<and> b \<in> set (x # rest)"
    by (rule max_loop_known)
  then obtain b where
    "max_loop key s x k rest = (Inr b, s)" "b \<in> set (x # rest)" by auto
  with k xs show ?thesis by (simp add: py_max_def)
qed

lemma well_visited_key:
  assumes "well_visited s" and "children s n \<noteq> None"
  shows "\<exists>c q. N s n = Some c \<and> 1 \<le> c \<and> Q s n = Some q"
proof -
  from assms have k: "N s n \<noteq> None" "Q s n \<noteq> None" "1 \<le> dd_val (N s) n"
    by (simp_all add: well_visited_def)
  then obtain c q where cq: "N s n = Some c" "Q s n = Some q" by auto
  with k(3) have "1 \<le> c" by (simp add: dd_val_def)
  with cq show ?thesis by simp
qed

lemma uct_called_known:
  assumes "well_visited s" and "uct_called s node cs"
  shows "(\<forall>c \<in> set cs. children s c \<noteq> None \<and> 1 \<le> dd_val (N s) c) \<and> 1 \<le> dd_val (N s) node"
proof -
  have all: "\<forall>c \<in> set cs. children s c \<noteq> None"
    using assms(2) by (auto simp: uct_called_def filter_empty_conv)
  have "children s node \<noteq> None" using assms(2) by (simp add: uct_called_def)
  with all assms(1) show ?thesis by (simp add: well_visited_def)
qed

lemma uct_select_known:
  assumes "well_visited s" and "uct_called s node cs"
  shows "\<exists>n. uct_select s node = (Inr n, s) \<and> n \<in> set cs"
proof -
  have cs: "children s node = Some cs" "cs \<noteq> []"
    using assms(2) by (simp_all add: uct_called_def)
  have all: "\<forall>c \<in> set cs. children s c \<noteq> None"
    using assms(2) by (auto simp: uct_called_def filter_empty_conv)
  then have la: "list_all (\<lambda>n. children s n \<noteq> None) cs" by (simp add: list_all_iff)
  have "children s node \<noteq> None" using cs(1) by simp
  with assms(1) have "\<exists>c q. N s node = Some c \<and> 1 \<le> c \<and> Q s node = Some q"
    by (rule well_visited_key)
  then obtain c where c: "N s node = Some c" and c1: "1 \<le> c" by auto
  have "0 \<le> ln (real_of_int c)" using c1 by simp
  then have v: "0 \<le> fl (ln (real_of_int c))" by (rule fl_nonneg)
  have keys: "\<forall>x \<in> set cs. \<exists>k. uct (fl (ln (real_of_int c))) s x = (Inr k, s)"
  proof
    fix x assume "x \<in> set cs"
    with all have "children s x \<noteq> None" by simp
    with assms(1) have "\<exists>c q. N s x = Some c \<and> 1 \<le> c \<and> Q s x = Some q"
      by (rule well_visited_key)
    then obtain q cx where "Q s x = Some q" "N s x = Some cx" "1 \<le> cx" by auto
    then show "\<exists>k. uct (fl (ln (real_of_int c))) s x = (Inr k, s)"
      using v by (rule uct_known)
  qed
  with cs(2) have "\<exists>b. py_max (uct (fl (ln (real_of_int c)))) s cs = (Inr b, s) \<and> b \<in> set cs"
    by (rule py_max_known)
  then obtain b where
    "py_max (uct (fl (ln (real_of_int c)))) s cs = (Inr b, s)" "b \<in> set cs" by auto
  with cs la c c1 show ?thesis
    by (simp add: uct_select_def dd_get_Some)
qed

subsection \<open>The loop of select\<close>

lemma set_pop_mem: "xs \<noteq> [] \<Longrightarrow> set_pop w xs \<in> set xs"
  by (simp add: set_pop_def)

lemma select_loop_unexpanded:
  "children s node = None \<Longrightarrow> select_loop w s node p1 = Some (Inr (p1 @ [node]), s)"
  by (subst select_loop.simps) simp

lemma select_loop_childless:
  "children s node = Some [] \<Longrightarrow> select_loop w s node p1 = Some (Inr (p1 @ [node]), s)"
  by (subst select_loop.simps) simp

lemma select_loop_unexplored:
  assumes "children s node = Some cs" and "cs \<noteq> []"
    and "filter (\<lambda>c. children s c = None) cs \<noteq> []"
  shows "select_loop w s node p1
    = Some (Inr (p1 @ [node, set_pop w (filter (\<lambda>c. children s c = None) cs)]), s)"
  using assms by (subst select_loop.simps) (simp add: Let_def)

lemma select_loop_descend:
  assumes "uct_called s node cs" and "uct_select s node = (Inr n, s')"
  shows "select_loop w s node p1 = select_loop w s' n (p1 @ [node])"
  using assms by (subst select_loop.simps) (simp add: Let_def uct_called_def)

text \<open>
  On an engine that satisfies the invariant, a loop that returns raises nothing and
  leaves the engine as it is; the path it returns does not depend on the path built so
  far; and the loop started at an expanded node of the path returns the rest of the path
  from that node.
\<close>

lemma select_loop_run:
  assumes "select_loop w s node p0 = Some r"
  shows "well_visited s \<longrightarrow>
    (\<exists>p. r = (Inr (p0 @ node # p), s)
       \<and> (\<forall>p1. select_loop w s node p1 = Some (Inr (p1 @ node # p), s))
       \<and> (\<forall>ys m zs. node # p = ys @ m # zs \<longrightarrow> children s m \<noteq> None
            \<longrightarrow> select_loop w s m [] = Some (Inr (m # zs), s)))"
proof (rule select_loop.raw_induct
    [where P = "\<lambda>w s node p0 r. well_visited s \<longrightarrow>
      (\<exists>p. r = (Inr (p0 @ node # p), s)
         \<and> (\<forall>p1. select_loop w s node p1 = Some (Inr (p1 @ node # p), s))
         \<and> (\<forall>ys m zs. node # p = ys @ m # zs \<longrightarrow> children s m \<noteq> None
              \<longrightarrow> select_loop w s m [] = Some (Inr (m # zs), s)))", OF _ assms], goal_cases)
  case (1 sl w s node p0 r)
  note IH = 1(1) and body = 1(2)
  show ?case
  proof
    assume wv: "well_visited s"
    let ?goal = "\<exists>p. r = (Inr (p0 @ node # p), s)
         \<and> (\<forall>p1. select_loop w s node p1 = Some (Inr (p1 @ node # p), s))
         \<and> (\<forall>ys m zs. node # p = ys @ m # zs \<longrightarrow> children s m \<noteq> None
              \<longrightarrow> select_loop w s m [] = Some (Inr (m # zs), s))"
    show ?goal
    proof (cases "children s node")
      case None
      have r: "r = (Inr (p0 @ [node]), s)" using body None by simp
      have a: "\<forall>p1. select_loop w s node p1 = Some (Inr (p1 @ [node]), s)"
        using None by (simp add: select_loop_unexpanded)
      have b: "\<forall>ys m zs. [node] = ys @ m # zs \<longrightarrow> children s m \<noteq> None
              \<longrightarrow> select_loop w s m [] = Some (Inr (m # zs), s)"
        using None by (auto simp: Cons_eq_append_conv)
      from r a b show ?thesis by (intro exI [of _ "[]"]) simp
    next
      case (Some cs)
      show ?thesis
      proof (cases "cs = []")
        case True
        have r: "r = (Inr (p0 @ [node]), s)" using body Some True by simp
        have a: "\<forall>p1. select_loop w s node p1 = Some (Inr (p1 @ [node]), s)"
          using Some True by (simp add: select_loop_childless)
        then have "select_loop w s node [] = Some (Inr [node], s)" by simp
        then have b: "\<forall>ys m zs. [node] = ys @ m # zs \<longrightarrow> children s m \<noteq> None
              \<longrightarrow> select_loop w s m [] = Some (Inr (m # zs), s)"
          by (auto simp: Cons_eq_append_conv)
        from r a b show ?thesis by (intro exI [of _ "[]"]) simp
      next
        case False
        let ?un = "filter (\<lambda>c. children s c = None) cs"
        show ?thesis
        proof (cases "?un = []")
          case un: False
          let ?u = "set_pop w ?un"
          have r: "r = (Inr (p0 @ [node, ?u]), s)"
            using body Some False un by (simp add: Let_def)
          have a: "\<forall>p1. select_loop w s node p1 = Some (Inr (p1 @ [node, ?u]), s)"
            using Some False un by (simp add: select_loop_unexplored)
          then have a0: "select_loop w s node [] = Some (Inr [node, ?u], s)" by simp
          have "?u \<in> set ?un" using un by (rule set_pop_mem)
          then have nu: "children s ?u = None" by simp
          have b: "\<forall>ys m zs. [node, ?u] = ys @ m # zs \<longrightarrow> children s m \<noteq> None
              \<longrightarrow> select_loop w s m [] = Some (Inr (m # zs), s)"
            using a0 nu by (auto simp: Cons_eq_append_conv)
          from r a b show ?thesis by (intro exI [of _ "[?u]"]) simp
        next
          case un: True
          have called: "uct_called s node cs"
            using Some False un by (simp add: uct_called_def)
          with wv have "\<exists>n. uct_select s node = (Inr n, s) \<and> n \<in> set cs"
            by (rule uct_select_known)
          then obtain n where u: "uct_select s node = (Inr n, s)" and n: "n \<in> set cs"
            by auto
          have "sl w s n (p0 @ [node]) = Some r"
            using body Some False un u by (simp add: Let_def)
          then have "well_visited s \<longrightarrow>
            (\<exists>p. r = (Inr ((p0 @ [node]) @ n # p), s)
               \<and> (\<forall>p1. select_loop w s n p1 = Some (Inr (p1 @ n # p), s))
               \<and> (\<forall>ys m zs. n # p = ys @ m # zs \<longrightarrow> children s m \<noteq> None
                    \<longrightarrow> select_loop w s m [] = Some (Inr (m # zs), s)))"
            by (rule IH)
          with wv obtain p where r: "r = (Inr ((p0 @ [node]) @ n # p), s)"
            and a': "\<forall>p1. select_loop w s n p1 = Some (Inr (p1 @ n # p), s)"
            and b': "\<forall>ys m zs. n # p = ys @ m # zs \<longrightarrow> children s m \<noteq> None
                    \<longrightarrow> select_loop w s m [] = Some (Inr (m # zs), s)"
            by auto
          have a: "\<forall>p1. select_loop w s node p1 = Some (Inr (p1 @ node # n # p), s)"
          proof
            fix p1
            have "select_loop w s node p1 = select_loop w s n (p1 @ [node])"
              using called u by (rule select_loop_descend)
            also have "\<dots> = Some (Inr ((p1 @ [node]) @ n # p), s)"
              using a' by simp
            finally show "select_loop w s node p1 = Some (Inr (p1 @ node # n # p), s)"
              by simp
          qed
          then have a0: "select_loop w s node [] = Some (Inr (node # n # p), s)" by simp
          have b: "\<forall>ys m zs. node # n # p = ys @ m # zs \<longrightarrow> children s m \<noteq> None
              \<longrightarrow> select_loop w s m [] = Some (Inr (m # zs), s)"
          proof (intro allI impI)
            fix ys m zs
            assume e: "node # n # p = ys @ m # zs" and c: "children s m \<noteq> None"
            show "select_loop w s m [] = Some (Inr (m # zs), s)"
            proof (cases ys)
              case Nil
              with e a0 show ?thesis by simp
            next
              case (Cons y ys')
              with e have "n # p = ys' @ m # zs" by simp
              with b' c show ?thesis by simp
            qed
          qed
          from r a b show ?thesis by (intro exI [of _ "n # p"]) simp
        qed
      qed
    qed
  qed
qed

text \<open>So the first node is not met again: the loop would run forever.\<close>

lemma select_path_once:
  assumes "well_visited s" and "select w s node = Some r"
  shows "\<exists>p. r = (Inr (node # p), s) \<and> node \<notin> set p"
proof -
  from assms(2) have "select_loop w s node [] = Some r" by (simp add: select_def)
  then have "well_visited s \<longrightarrow>
    (\<exists>p. r = (Inr ([] @ node # p), s)
       \<and> (\<forall>p1. select_loop w s node p1 = Some (Inr (p1 @ node # p), s))
       \<and> (\<forall>ys m zs. node # p = ys @ m # zs \<longrightarrow> children s m \<noteq> None
            \<longrightarrow> select_loop w s m [] = Some (Inr (m # zs), s)))"
    by (rule select_loop_run)
  with assms(1) obtain p where r: "r = (Inr (node # p), s)"
    and a: "\<forall>p1. select_loop w s node p1 = Some (Inr (p1 @ node # p), s)"
    and b: "\<forall>ys m zs. node # p = ys @ m # zs \<longrightarrow> children s m \<noteq> None
            \<longrightarrow> select_loop w s m [] = Some (Inr (m # zs), s)"
    by auto
  from a have a0: "select_loop w s node [] = Some (Inr (node # p), s)" by simp
  have "node \<notin> set p"
  proof
    assume "node \<in> set p"
    then obtain ys zs where p: "p = ys @ node # zs" by (auto dest: split_list)
    have c: "children s node \<noteq> None"
    proof
      assume "children s node = None"
      then have "select_loop w s node [] = Some (Inr ([] @ [node]), s)"
        by (rule select_loop_unexpanded)
      with a0 p show False by simp
    qed
    have "node # p = (node # ys) @ node # zs" using p by simp
    with b c have "select_loop w s node [] = Some (Inr (node # zs), s)" by blast
    with a0 have "p = zs" by simp
    with p show False by simp
  qed
  with r show ?thesis by simp
qed

subsection \<open>The invariant is kept\<close>

lemma backpropagate_N:
  "dd_val (N (backpropagate s path r)) n = dd_val (N s) n + int (count_list path n)"
  by (simp add: backpropagate_def backpropagate_loop_N)

lemma backpropagate_loop_keys:
  "(N s n \<noteq> None \<or> n \<in> set xs \<longrightarrow> N (backpropagate_loop s xs r) n \<noteq> None)
   \<and> (Q s n \<noteq> None \<or> n \<in> set xs \<longrightarrow> Q (backpropagate_loop s xs r) n \<noteq> None)"
proof (induction xs arbitrary: s r)
  case Nil
  show ?case by simp
next
  case (Cons x xs)
  let ?s2 = "s\<lparr>N := (N s)(x \<mapsto> dd_val (N s) x + 1),
      Q := (Q s)(x \<mapsto> fl (dd_val (Q s) x + r))\<rparr>"
  have u: "backpropagate_loop s (x # xs) r = backpropagate_loop ?s2 xs (fl (1 - r))"
    by (simp add: Let_def)
  show ?case unfolding u using Cons.IH [of ?s2 "fl (1 - r)"] by auto
qed

lemma backpropagate_keys:
  "(N s n \<noteq> None \<or> n \<in> set path \<longrightarrow> N (backpropagate s path r) n \<noteq> None)
   \<and> (Q s n \<noteq> None \<or> n \<in> set path \<longrightarrow> Q (backpropagate s path r) n \<noteq> None)"
  unfolding backpropagate_def using backpropagate_loop_keys [of s n "rev path" r] by simp

lemma rollout_step:
  assumes wv: "well_visited s" and run: "rollout w s rng node = Some (out, s', rng')"
  shows "out = Inr () \<and> well_visited s' \<and> dd_val (N s') node = dd_val (N s) node + 1"
proof -
  from run obtain r where sel: "select w s node = Some r"
    by (cases "select w s node") (simp_all add: rollout_def)
  with wv have "\<exists>p. r = (Inr (node # p), s) \<and> node \<notin> set p"
    by (rule select_path_once)
  then obtain p where r: "r = (Inr (node # p), s)" and once: "node \<notin> set p" by auto
  let ?path = "node # p"
  let ?leaf = "last ?path"
  let ?s2 = "expand w s ?leaf"
  from run sel r obtain rw where sim: "simulate w ?leaf rng = Some (rw, rng')"
    and s': "s' = backpropagate ?s2 ?path rw" and out: "out = Inr ()"
    by (cases "simulate w ?leaf rng") (auto simp: rollout_def Let_def)
  have N2: "N ?s2 = N s" and Q2: "Q ?s2 = Q s"
    by (simp_all add: expand_frame)
  have cnt: "\<And>n. dd_val (N s') n = dd_val (N s) n + int (count_list ?path n)"
    unfolding s' by (simp only: backpropagate_N N2)
  have ch: "children s' = children ?s2"
    unfolding s' by (rule backpropagate_children)
  have keys: "\<And>n. (N s n \<noteq> None \<or> n \<in> set ?path \<longrightarrow> N s' n \<noteq> None)
      \<and> (Q s n \<noteq> None \<or> n \<in> set ?path \<longrightarrow> Q s' n \<noteq> None)"
    unfolding s' using backpropagate_keys [of ?s2 _ ?path rw] by (simp only: N2 Q2)
  have nonneg: "\<And>n. 0 \<le> dd_val (N s) n" using wv by (simp add: well_visited_def)
  have leaf: "?leaf \<in> set ?path" by (rule last_in_set) simp
  have "well_visited s'"
    unfolding well_visited_def
  proof (intro conjI allI impI)
    fix n
    show "0 \<le> dd_val (N s') n" using cnt [of n] nonneg [of n] by simp
  next
    fix n assume c: "children s' n \<noteq> None"
    then have "children ?s2 n \<noteq> None" by (simp add: ch)
    then have alt: "children s n \<noteq> None \<or> n = ?leaf"
      by (auto simp: expand_children split: option.splits if_splits)
    then have inpath: "children s n \<noteq> None \<or> n \<in> set ?path" using leaf by auto
    have kn: "children s n \<noteq> None \<longrightarrow> N s n \<noteq> None \<and> Q s n \<noteq> None \<and> 1 \<le> dd_val (N s) n"
      using wv by (simp add: well_visited_def)
    show "N s' n \<noteq> None" using keys [of n] inpath kn by blast
    show "Q s' n \<noteq> None" using keys [of n] inpath kn by blast
    show "1 \<le> dd_val (N s') n"
    proof (cases "children s n \<noteq> None")
      case True
      with kn have "1 \<le> dd_val (N s) n" by simp
      with cnt [of n] show ?thesis by simp
    next
      case False
      with inpath have "n \<in> set ?path" by simp
      then have "count_list ?path n \<noteq> 0" by (simp only: count_list_0_iff) simp
      then have "1 \<le> int (count_list ?path n)" by simp
      with cnt [of n] nonneg [of n] show ?thesis by simp
    qed
  qed
  moreover have "dd_val (N s') node = dd_val (N s) node + 1"
    using cnt [of node] once by simp
  ultimately show ?thesis using out by simp
qed

lemma keys_kept_refl: "keys_kept s s"
  by (simp add: keys_kept_def)

lemma keys_kept_trans: "keys_kept s s1 \<Longrightarrow> keys_kept s1 s2 \<Longrightarrow> keys_kept s s2"
  by (simp add: keys_kept_def)

lemma score_keys: "keys_kept s (snd (score s n))"
  by (auto simp: keys_kept_def score_def Let_def split_beta dd_get_def split: option.splits)

lemma max_loop_score_keys: "keys_kept s (snd (max_loop score s b k xs))"
proof (induction xs arbitrary: s b k)
  case Nil
  show ?case by (simp add: keys_kept_refl)
next
  case (Cons x xs)
  obtain r s1 where kx: "score s x = (r, s1)" by (cases "score s x")
  have k1: "keys_kept s s1" using score_keys [of s x] kx by simp
  show ?case
  proof (cases r)
    case (Inl e)
    with kx k1 show ?thesis by simp
  next
    case (Inr v)
    have "keys_kept s1 (snd (max_loop score s1 b' k' xs))" for b' k'
      by (rule Cons.IH)
    with k1 have "keys_kept s (snd (max_loop score s1 b' k' xs))" for b' k'
      by (rule keys_kept_trans)
    with kx Inr show ?thesis by simp
  qed
qed

lemma py_max_score_keys: "keys_kept s (snd (py_max score s xs))"
proof (cases xs)
  case Nil
  then show ?thesis by (simp add: py_max_def keys_kept_refl)
next
  case (Cons x rest)
  obtain r s1 where kx: "score s x = (r, s1)" by (cases "score s x")
  have k1: "keys_kept s s1" using score_keys [of s x] kx by simp
  show ?thesis
  proof (cases r)
    case (Inl e)
    with kx k1 Cons show ?thesis by (simp add: py_max_def)
  next
    case (Inr v)
    have "keys_kept s1 (snd (max_loop score s1 x v rest))"
      by (rule max_loop_score_keys)
    with k1 have "keys_kept s (snd (max_loop score s1 x v rest))"
      by (rule keys_kept_trans)
    with kx Inr Cons show ?thesis by (simp add: py_max_def)
  qed
qed

lemma choose_node_keys: "keys_kept s (fst (snd (choose_node w s rng node)))"
proof (cases "children s node")
  case None
  then show ?thesis by (simp add: choose_node_def split_beta keys_kept_refl)
next
  case (Some cs)
  with py_max_score_keys [of s cs] show ?thesis
    by (simp add: choose_node_def split_beta keys_kept_refl)
qed

lemma well_visited_reads:
  assumes "well_visited s" and "same_reads s s'" and "keys_kept s s'"
  shows "well_visited s'"
  using assms by (simp add: well_visited_def same_reads_def keys_kept_def)

lemma well_visited_init: "well_visited (MCTS_init ew)"
  by (simp add: well_visited_def MCTS_init_def dd_val_def)

lemma reachable_well_visited: "reachable w s \<Longrightarrow> well_visited s"
proof (induction rule: reachable.induct)
  case (init ew)
  show ?case by (rule well_visited_init)
next
  case (after_rollout s rng node out s' rng')
  then show ?case using rollout_step [of s w rng node out s' rng'] by simp
next
  case (after_choose s rng node out s' rng')
  have "same_reads s (fst (snd (choose_node w s rng node)))" by (rule choose_node_reads)
  moreover have "keys_kept s (fst (snd (choose_node w s rng node)))"
    by (rule choose_node_keys)
  ultimately show ?case
    using after_choose well_visited_reads [of s s'] by simp
qed

lemma rollouts_count:
  assumes "well_visited s" and "rollouts w k node s rng = Some (out, s', rng')"
  shows "out = Inr () \<and> well_visited s' \<and> dd_val (N s') node = dd_val (N s) node + int k"
  using assms
proof (induction k arbitrary: s rng)
  case 0
  then show ?case by simp
next
  case (Suc k)
  from Suc.prems(2) obtain o1 s1 rng1 where r1: "rollout w s rng node = Some (o1, s1, rng1)"
    by (cases "rollout w s rng node") auto
  with Suc.prems(1) have st: "o1 = Inr () \<and> well_visited s1
      \<and> dd_val (N s1) node = dd_val (N s) node + 1"
    by (rule rollout_step)
  with Suc.prems(2) r1 have "rollouts w k node s1 rng1 = Some (out, s', rng')" by simp
  with st have "out = Inr () \<and> well_visited s'
      \<and> dd_val (N s') node = dd_val (N s1) node + int k"
    by (intro Suc.IH) simp_all
  with st show ?case by simp
qed

subsection \<open>Three rollouts in the game countdown\<close>

lemma rollout_first:
  "rollout countdown (MCTS_init 1) 0 1 = Some (Inr (), one_rollout_engine, 1)"
  by (simp add: rollout_def select_def select_loop.simps simulate_def simulate_loop.simps
      expand_def backpropagate_def MCTS_init_def countdown_def dd_val_def
      one_rollout_engine_def fl_0 fl_1)

lemma rollout_second:
  "rollout countdown one_rollout_engine 1 1 = Some (Inr (), two_rollouts_engine, 1)"
  by (simp add: rollout_def select_def select_loop.simps simulate_def simulate_loop.simps
      expand_def backpropagate_def countdown_def dd_val_def set_pop_def
      one_rollout_engine_def two_rollouts_engine_def Let_def fl_0 fl_1 fl_2)

lemma uct_select_third:
  "uct_select two_rollouts_engine (Suc 0) = (Inr 0, two_rollouts_engine)"
proof -
  have wv: "well_visited two_rollouts_engine"
    by (simp add: well_visited_def two_rollouts_engine_def dd_val_def)
  have c: "uct_called two_rollouts_engine (Suc 0) [0]"
    by (simp add: uct_called_def two_rollouts_engine_def)
  from wv c have "\<exists>n. uct_select two_rollouts_engine (Suc 0) = (Inr n, two_rollouts_engine)
      \<and> n \<in> set [0]"
    by (rule uct_select_known)
  then show ?thesis by simp
qed

lemma two_rollouts_children:
  "children two_rollouts_engine = [1 \<mapsto> [0], 0 \<mapsto> []]"
  by (simp add: two_rollouts_engine_def)

lemma select_third:
  "select countdown two_rollouts_engine (Suc 0) = Some (Inr [Suc 0, 0], two_rollouts_engine)"
  by (simp add: select_def select_loop.simps uct_select_third two_rollouts_children)

lemma rollout_third:
  "rollout countdown two_rollouts_engine 1 1 = Some (Inr (), three_rollouts_engine, 1)"
  by (simp add: rollout_def select_third)
    (simp add: simulate_def simulate_loop.simps expand_def backpropagate_def countdown_def
      dd_val_def two_rollouts_engine_def three_rollouts_engine_def fl_0 fl_1 fl_3)

lemma reachable_two_rollouts: "reachable countdown two_rollouts_engine"
proof -
  have "reachable countdown (MCTS_init 1 :: nat MCTS)" by (rule reachable.init)
  then have "reachable countdown one_rollout_engine"
    using rollout_first by (rule reachable.after_rollout)
  then show ?thesis
    using rollout_second by (rule reachable.after_rollout)
qed

subsection \<open>Three rollouts from node 2\<close>

lemma rollout_two_first:
  "rollout countdown (MCTS_init 1) 0 2 = Some (Inr (), rolled_once, 2)"
  by (simp add: rollout_def select_def select_loop.simps simulate_def simulate_loop.simps
      expand_def backpropagate_def MCTS_init_def countdown_def dd_val_def
      rolled_once_def fl_0 fl_1 numeral_2_eq_2)

lemma rollout_two_second:
  "rollout countdown rolled_once 2 2 = Some (Inr (), rolled_twice, 3)"
  by (simp add: rollout_def select_def select_loop.simps simulate_def simulate_loop.simps
      expand_def backpropagate_def countdown_def dd_val_def set_pop_def
      rolled_once_def rolled_twice_def Let_def fl_0 fl_1 numeral_2_eq_2 numeral_3_eq_3)

lemma rollout_two_third:
  "rollout countdown rolled_twice 3 2 = Some (Inr (), rolled_thrice, 3)"
  by (simp add: rollout_def select_def select_loop.simps simulate_def simulate_loop.simps
      expand_def backpropagate_def countdown_def dd_val_def set_pop_def
      rolled_twice_def rolled_thrice_def Let_def fl_0 fl_1 numeral_2_eq_2 numeral_3_eq_3)

lemma reachable_rolled_thrice: "reachable countdown rolled_thrice"
proof -
  have "reachable countdown (MCTS_init 1 :: nat MCTS)" by (rule reachable.init)
  then have "reachable countdown rolled_once"
    using rollout_two_first by (rule reachable.after_rollout)
  then have "reachable countdown rolled_twice"
    using rollout_two_second by (rule reachable.after_rollout)
  then show ?thesis
    using rollout_two_third by (rule reachable.after_rollout)
qed

lemma conforming_countdown: "conforming countdown"
  by (simp add: conforming_def countdown_def)

lemma conforming_tenth_game: "conforming tenth_game"
  by (simp add: conforming_def tenth_game_def countdown_def)

subsection \<open>Rollouts\<close>

text \<open>
  Claim C4. In every engine reached from a fresh one by calls of \<open>rollout\<close> and
  \<open>choose\<close>, whenever the loop of \<open>select\<close> is in the branch that calls \<open>uct_select\<close>
  on a node, every child in the recorded set of the node is a key of the children
  table with visit count at least 1, and the visit count of the node is at least 1; so
  \<open>uct_select\<close> raises neither the assertion, nor a division by zero, nor a domain error
  of the logarithm or the square root: it returns one of the children and leaves the
  engine as it is. Hence a \<open>select\<close> that returns has raised nothing, and the engine at
  each of its calls of \<open>uct_select\<close> is the engine it was called on.
\<close>

theorem uct_select_precondition:
  assumes "reachable w s"
  shows "(\<forall>node cs. uct_called s node cs \<longrightarrow>
            (\<forall>c \<in> set cs. children s c \<noteq> None \<and> 1 \<le> dd_val (N s) c)
            \<and> 1 \<le> dd_val (N s) node
            \<and> (\<exists>n. uct_select s node = (Inr n, s) \<and> n \<in> set cs))
     \<and> (\<forall>node out s'. select w s node = Some (out, s')
            \<longrightarrow> s' = s \<and> (\<exists>p. out = Inr (node # p)))"
proof -
  from assms have wv: "well_visited s" by (rule reachable_well_visited)
  have a: "\<forall>node cs. uct_called s node cs \<longrightarrow>
            (\<forall>c \<in> set cs. children s c \<noteq> None \<and> 1 \<le> dd_val (N s) c)
            \<and> 1 \<le> dd_val (N s) node
            \<and> (\<exists>n. uct_select s node = (Inr n, s) \<and> n \<in> set cs)"
  proof (intro allI impI)
    fix node cs assume c: "uct_called s node cs"
    from wv c have "(\<forall>c \<in> set cs. children s c \<noteq> None \<and> 1 \<le> dd_val (N s) c)
        \<and> 1 \<le> dd_val (N s) node"
      by (rule uct_called_known)
    moreover from wv c have "\<exists>n. uct_select s node = (Inr n, s) \<and> n \<in> set cs"
      by (rule uct_select_known)
    ultimately show "(\<forall>c \<in> set cs. children s c \<noteq> None \<and> 1 \<le> dd_val (N s) c)
            \<and> 1 \<le> dd_val (N s) node
            \<and> (\<exists>n. uct_select s node = (Inr n, s) \<and> n \<in> set cs)"
      by simp
  qed
  have b: "\<forall>node out s'. select w s node = Some (out, s')
            \<longrightarrow> s' = s \<and> (\<exists>p. out = Inr (node # p))"
  proof (intro allI impI)
    fix node out s' assume "select w s node = Some (out, s')"
    with wv have "\<exists>p. (out, s') = (Inr (node # p), s) \<and> node \<notin> set p"
      by (rule select_path_once)
    then show "s' = s \<and> (\<exists>p. out = Inr (node # p))" by auto
  qed
  from a b show ?thesis by simp
qed

theorem uct_select_precondition_witness:
  "reachable countdown two_rollouts_engine \<and> uct_called two_rollouts_engine 1 [0]
   \<and> children two_rollouts_engine 0 \<noteq> None
   \<and> 1 \<le> dd_val (N two_rollouts_engine) 0 \<and> 1 \<le> dd_val (N two_rollouts_engine) 1
   \<and> uct_select two_rollouts_engine 1 = (Inr 0, two_rollouts_engine)
   \<and> select countdown two_rollouts_engine 1 = Some (Inr [1, 0], two_rollouts_engine)"
proof -
  note r = reachable_two_rollouts
  have c: "uct_called two_rollouts_engine 1 [0]"
    by (simp add: uct_called_def two_rollouts_engine_def)
  note t = uct_select_precondition [OF r]
  have "(\<forall>c \<in> set [0]. children two_rollouts_engine c \<noteq> None
            \<and> 1 \<le> dd_val (N two_rollouts_engine) c)
        \<and> 1 \<le> dd_val (N two_rollouts_engine) 1
        \<and> (\<exists>n. uct_select two_rollouts_engine 1 = (Inr n, two_rollouts_engine) \<and> n \<in> set [0])"
    by (rule t [THEN conjunct1, rule_format, OF c])
  then have "children two_rollouts_engine 0 \<noteq> None
      \<and> 1 \<le> dd_val (N two_rollouts_engine) 0 \<and> 1 \<le> dd_val (N two_rollouts_engine) 1
      \<and> uct_select two_rollouts_engine 1 = (Inr 0, two_rollouts_engine)"
    by auto
  moreover have "select countdown two_rollouts_engine 1
      = Some (Inr [1, 0], two_rollouts_engine)"
    using select_third by simp
  ultimately show ?thesis using r c by simp
qed

text \<open>
  Claim C2. After \<open>k\<close> calls of \<open>rollout\<close> on one node, on a fresh engine, none of the
  calls has raised and the visit count of the node is \<open>k\<close>. Every path that \<open>select\<close>
  returns, in an engine reached from a fresh one, holds the node it was called on
  exactly once, and \<open>backpropagate\<close> adds to the visit count of a node the number of its
  occurrences on the path.
\<close>

theorem rollouts_visit_count:
  "(\<forall>out s' rng'. rollouts w k node (MCTS_init ew) rng = Some (out, s', rng')
       \<longrightarrow> out = Inr () \<and> dd_val (N s') node = int k)
   \<and> (\<forall>s out s'. reachable w s \<longrightarrow> select w s node = Some (out, s')
       \<longrightarrow> (\<exists>p. out = Inr p \<and> count_list p node = 1))"
proof -
  have a: "\<forall>out s' rng'. rollouts w k node (MCTS_init ew) rng = Some (out, s', rng')
       \<longrightarrow> out = Inr () \<and> dd_val (N s') node = int k"
  proof (intro allI impI)
    fix out s' rng'
    assume "rollouts w k node (MCTS_init ew) rng = Some (out, s', rng')"
    with well_visited_init have "out = Inr () \<and> well_visited s'
        \<and> dd_val (N s') node = dd_val (N (MCTS_init ew)) node + int k"
      by (rule rollouts_count)
    then show "out = Inr () \<and> dd_val (N s') node = int k"
      by (simp add: MCTS_init_def dd_val_def)
  qed
  have b: "\<forall>s out s'. reachable w s \<longrightarrow> select w s node = Some (out, s')
       \<longrightarrow> (\<exists>p. out = Inr p \<and> count_list p node = 1)"
  proof (intro allI impI)
    fix s out s'
    assume "reachable w s" and sel: "select w s node = Some (out, s')"
    then have "well_visited s" by (simp add: reachable_well_visited)
    from this sel have "\<exists>p. (out, s') = (Inr (node # p), s) \<and> node \<notin> set p"
      by (rule select_path_once)
    then obtain p where "out = Inr (node # p)" "node \<notin> set p" by auto
    then have "out = Inr (node # p) \<and> count_list (node # p) node = 1" by simp
    then show "\<exists>p. out = Inr p \<and> count_list p node = 1" by blast
  qed
  from a b show ?thesis by simp
qed

theorem rollouts_visit_count_witness:
  "rollouts countdown 3 1 (MCTS_init 1) 0 = Some (Inr (), three_rollouts_engine, 1)
   \<and> dd_val (N three_rollouts_engine) 1 = 3"
proof -
  have e: "rollouts countdown 3 1 (MCTS_init 1) 0 = Some (Inr (), three_rollouts_engine, 1)"
    using rollout_first rollout_second rollout_third by (simp add: numeral_3_eq_3)
  have "Inr () = (Inr () :: error + unit) \<and> dd_val (N three_rollouts_engine) 1 = int 3"
    by (rule rollouts_visit_count [THEN conjunct1, rule_format, OF e])
  with e show ?thesis by simp
qed

subsection \<open>The choice of choose\<close>

text \<open>
  Claim C1. In every engine reached from a fresh one by calls of \<open>rollout\<close> and
  \<open>choose\<close>, in a game that meets the contract, for every node that is not terminal and
  is expanded, the recorded children set is not empty and \<open>choose\<close> returns one of the
  recorded children; that child maximizes the mean reward among them, the quotient of
  cumulative reward and visit count that the code computes. A child with visit count 0
  scores negative infinity, so that it is not preferred over a child with at least one
  visit: when any recorded child has at least one visit, so has the child returned.
\<close>

theorem choose_maximizes_mean_reward:
  assumes "conforming w" and "reachable w s" and "\<not> is_terminal w node"
    and "children s node = Some cs"
  shows "cs \<noteq> []
     \<and> (\<exists>c s'. choose_node w s rng node = (Inr c, s', rng) \<and> c \<in> set cs
           \<and> (\<forall>c' \<in> set cs. mean_reward s c' \<le> mean_reward s c)
           \<and> (\<forall>c' \<in> set cs. 1 \<le> dd_val (N s) c' \<longrightarrow> 1 \<le> dd_val (N s) c))
     \<and> (\<forall>c' \<in> set cs. mean_reward s c' = None \<longleftrightarrow> dd_val (N s) c' = 0)"
proof -
  from assms(1,2,4) have "is_terminal w node \<longleftrightarrow> cs = []"
    by (rule reachable_terminal_children)
  with assms(3) have ne: "cs \<noteq> []" by simp
  from assms(2) have wv: "well_visited s" by (rule reachable_well_visited)
  from py_max_score [OF ne, of s] obtain b s' where
    run: "py_max score s cs = (Inr b, s')" and b: "b \<in> set cs"
    and mx: "\<forall>x \<in> set cs. mean_reward s x \<le> mean_reward s b" by auto
  have e: "choose_node w s rng node = (Inr b, s', rng)"
    using assms(3,4) run by (simp add: choose_node_def)
  have inf: "\<forall>c' \<in> set cs. mean_reward s c' = None \<longleftrightarrow> dd_val (N s) c' = 0"
    by (simp add: mean_reward_def)
  have z: "\<forall>c' \<in> set cs. 1 \<le> dd_val (N s) c' \<longrightarrow> 1 \<le> dd_val (N s) b"
  proof (intro ballI impI)
    fix c' assume c': "c' \<in> set cs" and v: "1 \<le> dd_val (N s) c'"
    from v have "mean_reward s c' \<noteq> None" by (simp add: mean_reward_def)
    moreover have "mean_reward s c' \<le> mean_reward s b" using mx c' by simp
    ultimately have "mean_reward s b \<noteq> None"
      by (cases "mean_reward s c'"; cases "mean_reward s b") simp_all
    then have "dd_val (N s) b \<noteq> 0" by (simp add: mean_reward_def split: if_splits)
    moreover have "0 \<le> dd_val (N s) b" using wv by (simp add: well_visited_def)
    ultimately show "1 \<le> dd_val (N s) b" by simp
  qed
  have "\<exists>c s'. choose_node w s rng node = (Inr c, s', rng) \<and> c \<in> set cs
           \<and> (\<forall>c' \<in> set cs. mean_reward s c' \<le> mean_reward s c)
           \<and> (\<forall>c' \<in> set cs. 1 \<le> dd_val (N s) c' \<longrightarrow> 1 \<le> dd_val (N s) c)"
    using e b mx z by (intro exI [of _ b] exI [of _ s']) simp
  with ne inf show ?thesis by (intro conjI)
qed

theorem choose_maximizes_mean_reward_witness:
  "conforming countdown \<and> reachable countdown rolled_thrice \<and> \<not> is_terminal countdown 2
   \<and> children rolled_thrice 2 = Some [1, 0]
   \<and> choose_node countdown rolled_thrice 0 2 = (Inr 1, rolled_thrice, 0)
   \<and> mean_reward rolled_thrice 1 = Some 1 \<and> mean_reward rolled_thrice 0 = Some 0
   \<and> (\<exists>c s'. choose_node countdown rolled_thrice 0 2 = (Inr c, s', 0) \<and> c \<in> set [1, 0]
        \<and> (\<forall>c' \<in> set [1, 0]. mean_reward rolled_thrice c' \<le> mean_reward rolled_thrice c)
        \<and> (\<forall>c' \<in> set [1, 0]. 1 \<le> dd_val (N rolled_thrice) c'
              \<longrightarrow> 1 \<le> dd_val (N rolled_thrice) c))"
proof -
  have h: "conforming countdown" "reachable countdown rolled_thrice"
    "\<not> is_terminal countdown 2" "children rolled_thrice 2 = Some [1, 0]"
    by (rule conforming_countdown, rule reachable_rolled_thrice)
      (simp_all add: countdown_def rolled_thrice_def)
  have c: "choose_node countdown rolled_thrice 0 2 = (Inr 1, rolled_thrice, 0)"
    by (simp add: choose_node_def py_max_def score_def dd_get_def countdown_def
        rolled_thrice_def fl_0 fl_1)
  have m: "mean_reward rolled_thrice 1 = Some 1" "mean_reward rolled_thrice 0 = Some 0"
    by (simp_all add: mean_reward_def dd_val_def rolled_thrice_def fl_0 fl_1)
  have "\<exists>c s'. choose_node countdown rolled_thrice 0 2 = (Inr c, s', 0) \<and> c \<in> set [1, 0]
        \<and> (\<forall>c' \<in> set [1, 0]. mean_reward rolled_thrice c' \<le> mean_reward rolled_thrice c)
        \<and> (\<forall>c' \<in> set [1, 0]. 1 \<le> dd_val (N rolled_thrice) c'
              \<longrightarrow> 1 \<le> dd_val (N rolled_thrice) c)"
    by (rule choose_maximizes_mean_reward [OF h, of 0, THEN conjunct2, THEN conjunct1])
  with h c m show ?thesis by (intro conjI)
qed

text \<open>
  The quotient is rounded. In \<open>tie_engine\<close> child 1 has the mean reward \<open>1 / 3\<close> and
  child 2 the mean reward \<open>0.3333333333333333 / 1\<close>: both are the float
  0.3333333333333333, and \<open>max\<close> returns child 2, the first in iteration order.
\<close>

lemma choose_rounded_tie:
  "choose_node countdown tie_engine 0 3 = (Inr 2, tie_engine, 0)
   \<and> mean_reward tie_engine 1 = Some (6004799503160661 / 2 ^ 54)
   \<and> mean_reward tie_engine 2 = Some (6004799503160661 / 2 ^ 54)"
proof -
  have m1: "mean_reward tie_engine 1 = Some (6004799503160661 / 2 ^ 54)"
    using fl_one_third by (simp add: mean_reward_def dd_val_def tie_engine_def)
  have m2: "mean_reward tie_engine 2 = Some (6004799503160661 / 2 ^ 54)"
    using fl_third by (simp add: mean_reward_def dd_val_def tie_engine_def)
  have "choose_node countdown tie_engine 0 3 = (Inr 2, tie_engine, 0)"
    using fl_one_third fl_third
    by (simp add: choose_node_def py_max_def score_def dd_get_def countdown_def
        tie_engine_def)
  with m1 m2 show ?thesis by (intro conjI)
qed

subsection \<open>A rollout from a terminal node\<close>

text \<open>
  Claim C10. In every engine reached from a fresh one by calls of \<open>rollout\<close> and
  \<open>choose\<close>, in a game that meets the contract, a rollout from a terminal node returns
  and raises nothing. The node is not expanded or is expanded to the empty set, so
  \<open>select\<close> returns the one-element path; \<open>expand\<close> leaves the children table with the
  successors that \<open>find_children\<close> reports for the node, which are none; \<open>simulate\<close>
  takes no random step and returns 1 minus the reward of the node; and \<open>backpropagate\<close>
  increments the visit count of the node by 1 and adds 1 minus the reward to its
  cumulative reward. The subtraction and the addition are those of floats.
\<close>

theorem rollout_terminal:
  assumes "conforming w" and "reachable w s" and "is_terminal w node"
  shows "(children s node = None \<or> children s node = Some [])
    \<and> select w s node = Some (Inr [node], s)
    \<and> find_children w node = []
    \<and> children (expand w s node) = (children s)(node \<mapsto> find_children w node)
    \<and> simulate w node rng = Some (fl (1 - reward w node), rng)
    \<and> rollout w s rng node
        = Some (Inr (), backpropagate (expand w s node) [node] (fl (1 - reward w node)), rng)
    \<and> children (backpropagate (expand w s node) [node] (fl (1 - reward w node)))
        = (children s)(node \<mapsto> find_children w node)
    \<and> N (backpropagate (expand w s node) [node] (fl (1 - reward w node)))
        = (N s)(node \<mapsto> dd_val (N s) node + 1)
    \<and> Q (backpropagate (expand w s node) [node] (fl (1 - reward w node)))
        = (Q s)(node \<mapsto> fl (dd_val (Q s) node + fl (1 - reward w node)))"
proof -
  have fc: "find_children w node = []"
    using assms(1,3) by (simp add: conforming_def)
  have ch: "children s node = None \<or> children s node = Some []"
  proof (cases "children s node")
    case None
    then show ?thesis by simp
  next
    case (Some cs)
    with assms(2) have "cs = find_children w node" by (rule reachable_children)
    with fc Some show ?thesis by simp
  qed
  have ex: "children (expand w s node) = (children s)(node \<mapsto> find_children w node)"
    using ch fc by (auto simp: expand_children)
  have sel: "select w s node = Some (Inr [node], s)"
    using ch by (rule select_dead_end)
  have sim: "simulate w node rng = Some (fl (1 - reward w node), rng)"
    using assms(3) by (rule simulate_terminal)
  have run: "rollout w s rng node
      = Some (Inr (), backpropagate (expand w s node) [node] (fl (1 - reward w node)), rng)"
    by (simp add: rollout_def sel sim)
  have c': "children (backpropagate (expand w s node) [node] (fl (1 - reward w node)))
        = (children s)(node \<mapsto> find_children w node)"
    by (simp only: backpropagate_children ex)
  have n': "N (backpropagate (expand w s node) [node] (fl (1 - reward w node)))
        = (N s)(node \<mapsto> dd_val (N s) node + 1)"
    by (simp add: backpropagate_single expand_frame)
  have q': "Q (backpropagate (expand w s node) [node] (fl (1 - reward w node)))
        = (Q s)(node \<mapsto> fl (dd_val (Q s) node + fl (1 - reward w node)))"
    by (simp add: backpropagate_single expand_frame)
  from ch sel fc ex sim run c' n' q' show ?thesis by (intro conjI)
qed

theorem rollout_terminal_witness:
  "conforming countdown \<and> reachable countdown two_rollouts_engine \<and> is_terminal countdown 0
   \<and> children two_rollouts_engine 0 = Some []
   \<and> rollout countdown two_rollouts_engine 5 0 = Some (Inr (), terminal_rolled, 5)
   \<and> conforming tenth_game \<and> reachable tenth_game (MCTS_init 1 :: nat MCTS)
   \<and> is_terminal tenth_game 0
   \<and> rollout tenth_game (MCTS_init 1) 5 0
      = Some (Inr (), \<lparr>Q = [0 \<mapsto> 8106479329266893 / 2 ^ 53], N = [0 \<mapsto> 1],
                       children = [0 \<mapsto> []], exploration_weight = 1\<rparr>, 5)"
proof -
  have h: "conforming countdown" "reachable countdown two_rollouts_engine"
    "is_terminal countdown 0"
    by (rule conforming_countdown, rule reachable_two_rollouts) (simp add: countdown_def)
  have h': "conforming tenth_game" "reachable tenth_game (MCTS_init 1 :: nat MCTS)"
    "is_terminal tenth_game 0"
    by (rule conforming_tenth_game, rule reachable.init)
      (simp add: tenth_game_def countdown_def)
  have k: "children two_rollouts_engine 0 = Some []"
    by (simp add: two_rollouts_engine_def)
  have a: "rollout countdown two_rollouts_engine 5 0 = Some (Inr (), terminal_rolled, 5)"
    using rollout_terminal [OF h, of 5]
    by (simp add: countdown_def two_rollouts_engine_def terminal_rolled_def
        backpropagate_single expand_def dd_val_def fl_0)
  have b: "rollout tenth_game (MCTS_init 1) 5 0
      = Some (Inr (), \<lparr>Q = [0 \<mapsto> 8106479329266893 / 2 ^ 53], N = [0 \<mapsto> 1],
                       children = [0 \<mapsto> []], exploration_weight = 1\<rparr>, 5)"
  proof -
    have r: "reward tenth_game 0 = 3602879701896397 / 2 ^ 55"
      by (simp add: tenth_game_def)
    have v: "fl (1 - reward tenth_game 0) = 8106479329266893 / 2 ^ 53"
      by (simp only: r fl_one_minus_tenth)
    have "backpropagate (expand tenth_game (MCTS_init 1) 0) [0 :: nat] a
        = \<lparr>Q = [0 \<mapsto> a], N = [0 \<mapsto> 1], children = [0 \<mapsto> []], exploration_weight = 1\<rparr>"
      if "fl a = a" for a
      using that
      by (simp add: backpropagate_single expand_def MCTS_init_def dd_val_def tenth_game_def
          countdown_def)
    from this [OF fl_nine_tenths]
    have e: "backpropagate (expand tenth_game (MCTS_init 1) 0) [0 :: nat]
          (8106479329266893 / 2 ^ 53)
        = \<lparr>Q = [0 \<mapsto> 8106479329266893 / 2 ^ 53], N = [0 \<mapsto> 1], children = [0 \<mapsto> []],
            exploration_weight = 1\<rparr>" .
    have "rollout tenth_game (MCTS_init 1) 5 0
        = Some (Inr (), backpropagate (expand tenth_game (MCTS_init 1) 0) [0]
            (fl (1 - reward tenth_game 0)), 5)"
      using rollout_terminal [OF h', of 5] by (elim conjE)
    then show ?thesis by (simp only: v e)
  qed
  from h h' k a b show ?thesis by (intro conjI)
qed

end
